theory Spec2Isabelle
  imports Complex_Main
begin

unbundle bit_operations_syntax

section \<open>Florida2000: reading punched cards from scanned images\<close>

text \<open>
  A shallow embedding of \<^verbatim>\<open>florida2000.py\<close>. Python integers are \<^typ>\<open>int\<close>, the
  exceptions the code can raise are values of \<open>error\<close>, and a method that mutates the
  image returns the new image. Python floats (the regression lines, the hole
  coordinates, the drift) are modelled as \<^typ>\<open>real\<close> with exact arithmetic: IEEE
  rounding is idealised away, and \<open>int(...)\<close> is truncation towards zero.
\<close>

datatype error = IndexError | ValueError

definition py_int :: "real \<Rightarrow> int" where
  "py_int q = (if q < 0 then \<lceil>q\<rceil> else \<lfloor>q\<rfloor>)"

subsection \<open>The hole-pattern table\<close>

text \<open>The entries of the dictionary literal \<^verbatim>\<open>HOLLERITH_TO_EBCDIC\<close>, in source order.\<close>

definition hollerith_entries :: "(int \<times> int) list" where
  "hollerith_entries = [
   (0b101100000011, 0x00), (0b100100000001, 0x01), (0b100010000001, 0x02), (0b100001000001, 0x03),
   (0b100000100001, 0x04), (0b100000010001, 0x05), (0b100000001001, 0x06), (0b100000000101, 0x07),
   (0b100000000011, 0x08), (0b100100000011, 0x09), (0b100010000011, 0x0a), (0b100001000011, 0x0b),
   (0b100000100011, 0x0c), (0b100000010011, 0x0d), (0b100000001011, 0x0e), (0b100000000111, 0x0f),
   (0b110100000011, 0x10), (0b010100000001, 0x11), (0b010010000001, 0x12), (0b010001000001, 0x13),
   (0b010000100001, 0x14), (0b010000010001, 0x15), (0b010000001001, 0x16), (0b010000000101, 0x17),
   (0b010000000011, 0x18), (0b010100000011, 0x19), (0b010010000011, 0x1a), (0b010001000011, 0x1b),
   (0b010000100011, 0x1c), (0b010000010011, 0x1d), (0b010000001011, 0x1e), (0b010000000111, 0x1f),
   (0b011100000011, 0x20), (0b001100000001, 0x21), (0b001010000001, 0x22), (0b001001000001, 0x23),
   (0b001000100001, 0x24), (0b001000010001, 0x25), (0b001000001001, 0x26), (0b001000000101, 0x27),
   (0b001000000011, 0x28), (0b001100000011, 0x29), (0b001010000011, 0x2a), (0b001001000011, 0x2b),
   (0b001000100011, 0x2c), (0b001000010011, 0x2d), (0b001000001011, 0x2e), (0b001000000111, 0x2f),
   (0b111100000011, 0x30), (0b000100000001, 0x31), (0b000010000001, 0x32), (0b000001000001, 0x33),
   (0b000000100001, 0x34), (0b000000010001, 0x35), (0b000000001001, 0x36), (0b000000000101, 0x37),
   (0b000000000011, 0x38), (0b000100000011, 0x39), (0b000010000011, 0x3a), (0b000001000011, 0x3b),
   (0b000000100011, 0x3c), (0b000000010011, 0x3d), (0b000000001011, 0x3e), (0b000000000111, 0x3f),
   (0b000000000000, 0x40), (0b101100000001, 0x41), (0b101010000001, 0x42), (0b101001000001, 0x43),
   (0b101000100001, 0x44), (0b101000010001, 0x45), (0b101000001001, 0x46), (0b101000000101, 0x47),
   (0b101000000011, 0x48), (0b100100000010, 0x49), (0b100010000010, 0x4a), (0b100001000010, 0x4b),
   (0b100000100010, 0x4c), (0b100000010010, 0x4d), (0b100000001010, 0x4e), (0b100000000110, 0x4f),
   (0b100000000000, 0x50), (0b110100000001, 0x51), (0b110010000001, 0x52), (0b110001000001, 0x53),
   (0b110000100001, 0x54), (0b110000010001, 0x55), (0b110000001001, 0x56), (0b110000000101, 0x57),
   (0b110000000011, 0x58), (0b010100000010, 0x59), (0b010010000010, 0x5a), (0b010001000010, 0x5b),
   (0b010000100010, 0x5c), (0b010000010010, 0x5d), (0b010000001010, 0x5e), (0b010000000110, 0x5f),
   (0b010000000000, 0x60), (0b001100000000, 0x61), (0b011010000001, 0x62), (0b011001000001, 0x63),
   (0b011000100001, 0x64), (0b011000010001, 0x65), (0b011000001001, 0x66), (0b011000000101, 0x67),
   (0b011000000011, 0x68), (0b001100000010, 0x69), (0b110000000000, 0x6a), (0b001001000010, 0x6b),
   (0b001000100010, 0x6c), (0b001000010010, 0x6d), (0b001000001010, 0x6e), (0b001000000110, 0x6f),
   (0b111000000000, 0x70), (0b111100000001, 0x71), (0b111010000001, 0x72), (0b111001000001, 0x73),
   (0b111000100001, 0x74), (0b111000010001, 0x75), (0b111000001001, 0x76), (0b111000000101, 0x77),
   (0b111000000011, 0x78), (0b000100000010, 0x79), (0b000010000010, 0x7a), (0b000001000010, 0x7b),
   (0b000000100010, 0x7c), (0b000000010010, 0x7d), (0b000000001010, 0x7e), (0b000000000110, 0x7f),
   (0b101100000010, 0x80), (0b101100000000, 0x81), (0b101010000000, 0x82), (0b101001000000, 0x83),
   (0b101000100000, 0x84), (0b101000010000, 0x85), (0b101000001000, 0x86), (0b101000000100, 0x87),
   (0b101000000010, 0x88), (0b101000000001, 0x89), (0b101010000010, 0x8a), (0b101001000010, 0x8b),
   (0b101000100010, 0x8c), (0b101000010010, 0x8d), (0b101000001010, 0x8e), (0b101000000110, 0x8f),
   (0b110100000010, 0x90), (0b110100000000, 0x91), (0b110010000000, 0x92), (0b110001000000, 0x93),
   (0b110000100000, 0x94), (0b110000010000, 0x95), (0b110000001000, 0x96), (0b110000000100, 0x97),
   (0b110000000010, 0x98), (0b110000000001, 0x99), (0b110010000010, 0x9a), (0b110001000010, 0x9b),
   (0b110000100010, 0x9c), (0b110000010010, 0x9d), (0b110000001010, 0x9e), (0b110000000110, 0x9f),
   (0b011100000010, 0xa0), (0b011100000000, 0xa1), (0b011010000000, 0xa2), (0b011001000000, 0xa3),
   (0b011000100000, 0xa4), (0b011000010000, 0xa5), (0b011000001000, 0xa6), (0b011000000100, 0xa7),
   (0b011000000010, 0xa8), (0b011000000001, 0xa9), (0b011010000010, 0xaa), (0b011001000010, 0xab),
   (0b011000100010, 0xac), (0b011000010010, 0xad), (0b011000001010, 0xae), (0b011000000110, 0xaf),
   (0b111100000010, 0xb0), (0b111100000000, 0xb1), (0b111010000000, 0xb2), (0b111001000000, 0xb3),
   (0b111000100000, 0xb4), (0b111000010000, 0xb5), (0b111000001000, 0xb6), (0b111000000100, 0xb7),
   (0b111000000010, 0xb8), (0b111000000001, 0xb9), (0b111010000010, 0xba), (0b111001000010, 0xbb),
   (0b111000100010, 0xbc), (0b111000010010, 0xbd), (0b111000001010, 0xbe), (0b111000000110, 0xbf),
   (0b101000000000, 0xc0), (0b100100000000, 0xc1), (0b100010000000, 0xc2), (0b100001000000, 0xc3),
   (0b100000100000, 0xc4), (0b100000010000, 0xc5), (0b100000001000, 0xc6), (0b100000000100, 0xc7),
   (0b100000000010, 0xc8), (0b100000000001, 0xc9), (0b101010000011, 0xca), (0b101001000011, 0xcb),
   (0b101000100011, 0xcc), (0b101000010011, 0xcd), (0b101000001011, 0xce), (0b101000000111, 0xcf),
   (0b011000000000, 0xd0), (0b010100000000, 0xd1), (0b010010000000, 0xd2), (0b010001000000, 0xd3),
   (0b010000100000, 0xd4), (0b010000010000, 0xd5), (0b010000001000, 0xd6), (0b010000000100, 0xd7),
   (0b010000000010, 0xd8), (0b010000000001, 0xd9), (0b110010000011, 0xda), (0b110001000011, 0xdb),
   (0b110000100011, 0xdc), (0b110000010011, 0xdd), (0b110000001011, 0xde), (0b110000000111, 0xdf),
   (0b001010000010, 0xe0), (0b011100000001, 0xe1), (0b001010000000, 0xe2), (0b001001000000, 0xe3),
   (0b001000100000, 0xe4), (0b001000010000, 0xe5), (0b001000001000, 0xe6), (0b001000000100, 0xe7),
   (0b001000000010, 0xe8), (0b001000000001, 0xe9), (0b011010000011, 0xea), (0b011001000011, 0xeb),
   (0b011000100011, 0xec), (0b011000010011, 0xed), (0b011000001011, 0xee), (0b011000000111, 0xef),
   (0b001000000000, 0xf0), (0b000100000000, 0xf1), (0b000010000000, 0xf2), (0b000001000000, 0xf3),
   (0b000000100000, 0xf4), (0b000000010000, 0xf5), (0b000000001000, 0xf6), (0b000000000100, 0xf7),
   (0b000000000010, 0xf8), (0b000000000001, 0xf9), (0b111010000011, 0xfa), (0b111001000011, 0xfb),
   (0b111000100011, 0xfc), (0b111000010011, 0xfd), (0b111000001011, 0xfe), (0b111000000111, 0xff)
  ]"

text \<open>A dictionary literal stores its entries left to right; a repeated key would keep
  the last value written.\<close>

definition HOLLERITH_TO_EBCDIC :: "int \<rightharpoonup> int" where
  "HOLLERITH_TO_EBCDIC = fold (\<lambda>(k, v) m. m(k \<mapsto> v)) hollerith_entries Map.empty"

text \<open>\<^verbatim>\<open>HOLLERITH_TO_EBCDIC.get(i, 0)\<close>\<close>

definition hollerith_get :: "int \<Rightarrow> int" where
  "hollerith_get i = (case HOLLERITH_TO_EBCDIC i of None \<Rightarrow> 0 | Some v \<Rightarrow> v)"

text \<open>\<^verbatim>\<open>bytes(...)\<close> raises \<open>ValueError\<close> for an element outside \<open>range(256)\<close>.\<close>

definition bytes :: "int list \<Rightarrow> error + int list" where
  "bytes bs = (if list_all (\<lambda>b. 0 \<le> b \<and> b < 256) bs then Inr bs else Inl ValueError)"

definition ebcdic :: "int list \<Rightarrow> error + int list" where
  "ebcdic vals = bytes (map hollerith_get vals)"

subsection \<open>Column values\<close>

text \<open>\<^verbatim>\<open>sum(2**n*x for n,x in enumerate(reversed(r)))\<close>\<close>

definition column_value :: "int list \<Rightarrow> int" where
  "column_value r = (\<Sum>(n, x) \<leftarrow> enumerate 0 (rev r). 2 ^ n * x)"

definition card_values :: "int list list \<Rightarrow> int list" where
  "card_values hs = map column_value hs"


subsection \<open>The image\<close>

text \<open>
  \<^verbatim>\<open>self.im\<close> is the array returned by \<^verbatim>\<open>imageio.v3.imread\<close>: of shape
  \<open>(ymax, xmax)\<close> for a greyscale scan (\<open>chans = None\<close>) and of shape
  \<open>(ymax, xmax, c)\<close> for a colour scan (\<open>chans = Some c\<close>). \<open>pix im r c k\<close> is the
  sample of channel \<open>k\<close> in row \<open>r\<close> and column \<open>c\<close>; samples are unsigned, and every
  sum the code takes of them is taken in a type wide enough not to wrap.
\<close>

record image =
  ymax :: nat
  xmax :: nat
  chans :: "nat option"
  pix :: "nat \<Rightarrow> nat \<Rightarrow> nat \<Rightarrow> nat"

text \<open>The sum of all channels of one pixel.\<close>

definition sample :: "image \<Rightarrow> nat \<Rightarrow> nat \<Rightarrow> nat" where
  "sample im r c =
     (case chans im of None \<Rightarrow> pix im r c 0 | Some n \<Rightarrow> (\<Sum>k\<leftarrow>[0..<n]. pix im r c k))"

text \<open>A slice bound: a negative bound counts from the end, and both are clamped to
  the axis. A slice whose stop is not after its start is empty.\<close>

definition slice_index :: "nat \<Rightarrow> int \<Rightarrow> nat" where
  "slice_index n i = (if i < 0 then nat (i + int n) else min (nat i) n)"

definition slice :: "nat \<Rightarrow> int \<Rightarrow> int \<Rightarrow> nat list" where
  "slice n a b = [slice_index n a ..< slice_index n b]"

text \<open>\<^verbatim>\<open>self.im[r0:r1, c0:c1].sum()\<close>\<close>

definition window_sum :: "image \<Rightarrow> int \<Rightarrow> int \<Rightarrow> int \<Rightarrow> int \<Rightarrow> int" where
  "window_sum im r0 r1 c0 c1 =
     int (\<Sum>r\<leftarrow>slice (ymax im) r0 r1. \<Sum>c\<leftarrow>slice (xmax im) c0 c1. sample im r c)"

text \<open>An integer index: a negative index counts from the end, and an index outside
  the axis raises \<open>IndexError\<close>.\<close>

definition py_index :: "nat \<Rightarrow> int \<Rightarrow> error + nat" where
  "py_index n i =
     (if 0 \<le> i \<and> i < int n then Inr (nat i)
      else if - int n \<le> i \<and> i < 0 then Inr (nat (i + int n))
      else Inl IndexError)"

text \<open>\<^verbatim>\<open>self.im[y][a:b].astype(int).sum()\<close>, for a row \<open>r\<close> already indexed.\<close>

definition row_sum :: "image \<Rightarrow> nat \<Rightarrow> int \<Rightarrow> int \<Rightarrow> int" where
  "row_sum im r a b = int (\<Sum>c\<leftarrow>slice (xmax im) a b. sample im r c)"

text \<open>\<^verbatim>\<open>self.im[y, x] = v\<close>: every channel of the pixel is set to \<open>v\<close>.\<close>

definition put :: "image \<Rightarrow> int \<times> int \<Rightarrow> nat \<Rightarrow> error + image" where
  "put im p v =
     (case py_index (ymax im) (fst p) of Inl e \<Rightarrow> Inl e
      | Inr r \<Rightarrow>
        (case py_index (xmax im) (snd p) of Inl e \<Rightarrow> Inl e
         | Inr c \<Rightarrow> Inr (im\<lparr>pix := (pix im)(r := (pix im r)(c := (\<lambda>k. v)))\<rparr>)))"

text \<open>A sequence of pixel assignments; the first one that raises ends it.\<close>

fun draw :: "((int \<times> int) \<times> nat) list \<Rightarrow> image \<Rightarrow> error + image" where
  "draw [] im = Inr im"
| "draw ((p, v) # ps) im = (case put im p v of Inl e \<Rightarrow> Inl e | Inr im' \<Rightarrow> draw ps im')"

subsection \<open>Constants of \<^verbatim>\<open>PunchedCard\<close>\<close>

definition DPI :: real where "DPI = 150"
definition EDGE_WIN :: int where "EDGE_WIN = 10"
definition EXPECT_LEFT_EDGE :: int where "EXPECT_LEFT_EDGE = 50"
definition EXPECT_RIGHT_EDGE :: int where "EXPECT_RIGHT_EDGE = - 50"
definition CARD_X :: real where "CARD_X = 13 * 0.25 * DPI"
definition HOLE_Y :: int where "HOLE_Y = 3"
definition HOLE_X :: int where "HOLE_X = 6"
definition THRESHOLD :: int where "THRESHOLD = 50"
definition FINE_TUNE :: real where "FINE_TUNE = 0.05"

text \<open>\<^verbatim>\<open>self.threshold\<close>, as \<^verbatim>\<open>__init__\<close> computes it.\<close>

definition threshold :: "image \<Rightarrow> int" where
  "threshold im =
     (let t = (2 * HOLE_X + 1) * (2 * HOLE_Y + 1) * THRESHOLD
      in case chans im of None \<Rightarrow> t | Some n \<Rightarrow> t * int n)"

text \<open>\<^verbatim>\<open>range(start, stop, step)\<close> for a positive step, and \<^verbatim>\<open>range(start, stop, -1)\<close>.\<close>

definition py_range :: "int \<Rightarrow> int \<Rightarrow> int \<Rightarrow> int list" where
  "py_range start stop step =
     map (\<lambda>k. start + step * int k) [0..<nat ((stop - start + step - 1) div step)]"

definition py_range_down :: "int \<Rightarrow> int \<Rightarrow> int list" where
  "py_range_down start stop = map (\<lambda>k. start - int k) [0..<nat (start - stop)]"

definition stipple :: "int \<Rightarrow> nat" where
  "stipple x = (if x AND 8 \<noteq> 0 then 255 else 0)"

subsection \<open>The edge model\<close>

record line =
  slope :: real
  intercept :: real

definition center_x :: "line \<Rightarrow> line \<Rightarrow> real \<Rightarrow> int" where
  "center_x l r y =
     (let x1 = py_int (intercept l + y * slope l);
          x2 = py_int (intercept r + y * slope r)
      in py_int (of_int (x1 + x2) * 0.5))"

text \<open>The search of one sampled row for the left edge (the first inner loop of
  \<^verbatim>\<open>measure_skew\<close>), on the row \<open>r\<close> that \<^verbatim>\<open>self.im[y]\<close> gives: the state is
  \<open>(pk, xl)\<close>.\<close>

definition left_scan :: "image \<Rightarrow> nat \<Rightarrow> int \<Rightarrow> int \<times> int" where
  "left_scan im r cl =
     fold (\<lambda>x (pk, xl).
            let light = row_sum im r x (x + EDGE_WIN);
                dark = row_sum im r (x - EDGE_WIN) x
            in if light - dark > pk then (light - dark, x) else (pk, xl))
          [cl - EDGE_WIN .. cl + EDGE_WIN - 1] (0, 0)"

text \<open>Only \<^verbatim>\<open>self.im[y]\<close> can raise, and it is the same index at each of the twenty
  candidates.\<close>

definition left_edge :: "image \<Rightarrow> int \<Rightarrow> int \<Rightarrow> error + int" where
  "left_edge im y cl =
     (case py_index (ymax im) y of Inl e \<Rightarrow> Inl e | Inr r \<Rightarrow> Inr (snd (left_scan im r cl)))"

text \<open>The same for the right edge (the second inner loop): the state is \<open>(pk, xr)\<close>.\<close>

definition right_scan :: "image \<Rightarrow> nat \<Rightarrow> int \<Rightarrow> int \<times> int" where
  "right_scan im r cr =
     fold (\<lambda>x (pk, xr).
            let dark = row_sum im r x (x + EDGE_WIN);
                light = row_sum im r (x - EDGE_WIN) x
            in if light - dark > pk then (light - dark, x) else (pk, xr))
          [cr - EDGE_WIN .. cr + EDGE_WIN - 1] (0, 0)"

definition right_edge :: "image \<Rightarrow> int \<Rightarrow> int \<Rightarrow> error + int" where
  "right_edge im y cr =
     (case py_index (ymax im) y of Inl e \<Rightarrow> Inl e | Inr r \<Rightarrow> Inr (snd (right_scan im r cr)))"

text \<open>The contrast of a candidate as the specification words it: the pixels
  immediately outside the card minus the pixels immediately inside. Outside is to the
  left of the left edge and to the right of the right edge.\<close>

definition outside_minus_inside_left :: "image \<Rightarrow> nat \<Rightarrow> int \<Rightarrow> int" where
  "outside_minus_inside_left im r x = row_sum im r (x - EDGE_WIN) x - row_sum im r x (x + EDGE_WIN)"

definition outside_minus_inside_right :: "image \<Rightarrow> nat \<Rightarrow> int \<Rightarrow> int" where
  "outside_minus_inside_right im r x = row_sum im r x (x + EDGE_WIN) - row_sum im r (x - EDGE_WIN) x"

text \<open>The same with the two sides exchanged: inside minus outside.\<close>

definition inside_minus_outside_left :: "image \<Rightarrow> nat \<Rightarrow> int \<Rightarrow> int" where
  "inside_minus_outside_left im r x = row_sum im r x (x + EDGE_WIN) - row_sum im r (x - EDGE_WIN) x"

definition inside_minus_outside_right :: "image \<Rightarrow> nat \<Rightarrow> int \<Rightarrow> int" where
  "inside_minus_outside_right im r x = row_sum im r (x - EDGE_WIN) x - row_sum im r x (x + EDGE_WIN)"

record skew =
  ys :: "int list"
  left :: "int list"
  right :: "int list"
  cl :: int
  cr :: int

text \<open>One pass of the outer loop of \<^verbatim>\<open>measure_skew\<close>, with the two assignments that
  end it as the source has them.\<close>

definition skew_row :: "image \<Rightarrow> int \<Rightarrow> skew \<Rightarrow> error + skew" where
  "skew_row im y s =
     (case left_edge im y (cl s) of Inl e \<Rightarrow> Inl e
      | Inr xl \<Rightarrow>
        (case right_edge im y (cr s) of Inl e \<Rightarrow> Inl e
         | Inr xr \<Rightarrow>
           Inr \<lparr>ys = ys s @ [y], left = left s @ [xl], right = right s @ [xr],
                cl = py_int (of_int (cl s) + of_int (xl - cl s) * 0.125),
                cr = py_int (of_int (cr s) + of_int (cr s - cr s) * 0.125)\<rparr>))"

fun skew_rows :: "image \<Rightarrow> int list \<Rightarrow> skew \<Rightarrow> error + skew" where
  "skew_rows im [] s = Inr s"
| "skew_rows im (y # rest) s =
     (case skew_row im y s of Inl e \<Rightarrow> Inl e | Inr s' \<Rightarrow> skew_rows im rest s')"

definition skew_samples :: "image \<Rightarrow> error + skew" where
  "skew_samples im =
     skew_rows im (py_range 100 (int (ymax im) - 200) 100)
       \<lparr>ys = [], left = [], right = [],
        cl = EXPECT_LEFT_EDGE, cr = int (xmax im) + EXPECT_RIGHT_EDGE\<rparr>"

text \<open>The pixels the debug overlay of \<^verbatim>\<open>measure_skew\<close> assigns, in order.\<close>

definition edge_marks :: "line \<Rightarrow> line \<Rightarrow> nat \<Rightarrow> ((int \<times> int) \<times> nat) list" where
  "edge_marks l r h =
     concat (map (\<lambda>y. map (\<lambda>a. ((y, py_int (of_int (center_x l r (of_int y)) + a * CARD_X)), stipple y))
                        [- 0.5, 0.5])
                 [100 .. int h - 200 - 1])"

text \<open>\<^verbatim>\<open>scipy.stats.linregress\<close> is a parameter \<open>lin\<close> of the model.\<close>

definition measure_skew ::
  "(int list \<Rightarrow> int list \<Rightarrow> error + line) \<Rightarrow> bool \<Rightarrow> image \<Rightarrow> error + (line \<times> line \<times> image)" where
  "measure_skew lin debug im =
     (case skew_samples im of Inl e \<Rightarrow> Inl e
      | Inr s \<Rightarrow>
        (case lin (ys s) (left s) of Inl e \<Rightarrow> Inl e
         | Inr l \<Rightarrow>
           (case lin (ys s) (right s) of Inl e \<Rightarrow> Inl e
            | Inr r \<Rightarrow>
              if debug
              then (case draw (edge_marks l r (ymax im)) im of Inl e \<Rightarrow> Inl e
                    | Inr im' \<Rightarrow> Inr (l, r, im'))
              else Inr (l, r, im))))"

subsection \<open>The front edge\<close>

text \<open>The loop of \<^verbatim>\<open>find_front_edge\<close>: the state is \<open>(yb, yv)\<close>. Slices never raise.\<close>

definition front_contrast :: "line \<Rightarrow> line \<Rightarrow> image \<Rightarrow> int \<Rightarrow> int" where
  "front_contrast l r im y =
     (let x = center_x l r (of_int y);
          light = window_sum im (y - EDGE_WIN) y (x - EDGE_WIN) (x + EDGE_WIN);
          dark = window_sum im y (y + EDGE_WIN) (x - EDGE_WIN) (x + EDGE_WIN)
      in light - dark)"

definition front_scan :: "line \<Rightarrow> line \<Rightarrow> image \<Rightarrow> int \<times> int" where
  "front_scan l r im =
     fold (\<lambda>y (yb, yv).
            if front_contrast l r im y > yv then (y, front_contrast l r im y) else (yb, yv))
          (py_range_down (int (ymax im) - 20) (int (ymax im) - 200)) (int (ymax im), 0)"

definition front_edge :: "line \<Rightarrow> line \<Rightarrow> image \<Rightarrow> int" where
  "front_edge l r im = fst (front_scan l r im)"

definition front_marks :: "line \<Rightarrow> line \<Rightarrow> int \<Rightarrow> ((int \<times> int) \<times> nat) list" where
  "front_marks l r yb =
     (let xc = center_x l r (of_int yb); y = yb
      in map (\<lambda>x. ((py_int (of_int y - of_int (x - xc) * slope r), x), stipple x))
             [xc - 100 .. xc + 100 - 1])"

definition find_front_edge :: "line \<Rightarrow> line \<Rightarrow> bool \<Rightarrow> image \<Rightarrow> error + (int \<times> image)" where
  "find_front_edge l r debug im =
     (let yb = front_edge l r im
      in if debug
         then (case draw (front_marks l r yb) im of Inl e \<Rightarrow> Inl e | Inr im' \<Rightarrow> Inr (yb, im'))
         else Inr (yb, im))"

subsection \<open>The geometry of the holes\<close>

record geom =
  lrl :: line
  lrr :: line
  y_front :: int

definition hole_coord :: "geom \<Rightarrow> int \<Rightarrow> int \<Rightarrow> real \<times> real" where
  "hole_coord g col row =
     (let row' = of_int row - 6.5;
          col' = col - 1;
          dx = row' * 0.25 * DPI;
          y = of_int (y_front g) - ((0.25 + 0.087 * of_int col') * DPI) - dx * slope (lrr g);
          x = of_int (center_x (lrl g) (lrr g) y) + dx
      in (x, y))"

subsection \<open>The hole detector\<close>

text \<open>The inner function \<^verbatim>\<open>ww\<close> of \<^verbatim>\<open>is_hole\<close>.\<close>

definition ww :: "image \<Rightarrow> int \<Rightarrow> int \<Rightarrow> int \<Rightarrow> int \<Rightarrow> int" where
  "ww im x y dx dy =
     (let dy' = dy + y; dx' = dx + x
      in window_sum im (dy' - HOLE_Y) (dy' + HOLE_Y + 1) (dx' - HOLE_X) (dx' + HOLE_X + 1))"

text \<open>The candidate offsets in the order the two nested loops visit them.\<close>

definition offsets :: "(int \<times> int) list" where
  "offsets = concat (map (\<lambda>dx. map (\<lambda>dy. (dx, dy)) [- 2, - 1, 0, 1, 2]) [- 1, 0, 1])"

text \<open>The search loop of \<^verbatim>\<open>is_hole\<close>: the state is \<open>(w, off)\<close>, and \<open>w\<close> starts at the
  sentinel \<^verbatim>\<open>9e9\<close>.\<close>

definition is_hole_search :: "image \<Rightarrow> int \<Rightarrow> int \<Rightarrow> int \<times> (int \<times> int)" where
  "is_hole_search im x y =
     fold (\<lambda>(dx, dy) (w, off).
            let w2 = ww im x y dx dy
            in if w2 < w then (w2, (dx, dy)) else (w, off))
          offsets (9000000000, (0, 0))"

text \<open>The least window sum over the candidate offsets: what the search is specified
  to find.\<close>

definition min_window_sum :: "image \<Rightarrow> int \<Rightarrow> int \<Rightarrow> int" where
  "min_window_sum im x y = Min ((\<lambda>(dx, dy). ww im x y dx dy) ` set offsets)"

text \<open>The pixels of the white outline, in the order \<^verbatim>\<open>is_hole\<close> assigns them.\<close>

definition outline :: "int \<Rightarrow> int \<Rightarrow> (int \<times> int) list" where
  "outline ry rx =
     concat (map (\<lambda>dx. [(ry + HOLE_Y, rx + dx), (ry + HOLE_Y, rx - dx),
                         (ry - HOLE_Y, rx + dx), (ry - HOLE_Y, rx - dx)]) [0 .. HOLE_X + 1 - 1])
     @ concat (map (\<lambda>dy. [(ry + dy, rx - HOLE_X), (ry - dy, rx - HOLE_X),
                           (ry + dy, rx + HOLE_X), (ry - dy, rx + HOLE_X)]) [0 .. HOLE_Y + 1 - 1])"

text \<open>The two in-place updates that mark a window where no hole was found:
  \<^verbatim>\<open>//= 3\<close> and then \<^verbatim>\<open>+= 128\<close> on the window around \<open>(x, y)\<close>.\<close>

definition dim :: "image \<Rightarrow> int \<Rightarrow> int \<Rightarrow> image" where
  "dim im x y =
     im\<lparr>pix := (\<lambda>r c k.
            if r \<in> set (slice (ymax im) (y - HOLE_Y) (y + HOLE_Y + 1))
               \<and> c \<in> set (slice (xmax im) (x - HOLE_X) (x + HOLE_X + 1))
            then pix im r c k div 3 + 128 else pix im r c k)\<rparr>"

text \<open>\<^verbatim>\<open>is_hole\<close> returns the image as it leaves it and the tuple
  \<open>(hole, weight, dx, dy)\<close>.\<close>

definition is_hole :: "bool \<Rightarrow> image \<Rightarrow> int \<Rightarrow> int \<Rightarrow> error + (image \<times> int \<times> int \<times> int \<times> int)" where
  "is_hole debug im x y =
     (let (w, off) = is_hole_search im x y
      in if w < threshold im
         then (let ry = y + fst off; rx = x + snd off
               in case draw (map (\<lambda>p. (p, 255)) (outline ry rx)) im of
                    Inl e \<Rightarrow> Inl e
                  | Inr im' \<Rightarrow> Inr (im', 1, w, fst off, snd off))
         else Inr (if debug then dim im x y else im, 0, 0, 0, 0))"

subsection \<open>The scan\<close>

record scan =
  img :: image
  delta_x :: real
  delta_y :: real

text \<open>The body of the inner loop of \<^verbatim>\<open>find_holes\<close>: \<open>r\<close> is the list of the column.\<close>

definition find_cell ::
  "geom \<Rightarrow> bool \<Rightarrow> bool \<Rightarrow> int \<Rightarrow> int \<Rightarrow> scan \<times> int list \<Rightarrow> error + (scan \<times> int list)" where
  "find_cell g front debug col row sr =
     (let s = fst sr; r = snd sr;
          (x, y) = hole_coord g col row;
          x = py_int (x + delta_x s);
          y = py_int (y + delta_y s)
      in case is_hole debug (img s) x y of
           Inl e \<Rightarrow> Inl e
         | Inr (im', hole, weight, dx, dy) \<Rightarrow>
             Inr (\<lparr>img = im',
                   delta_x = (if hole \<noteq> 0 then delta_x s + of_int dx * FINE_TUNE else delta_x s),
                   delta_y = (if hole \<noteq> 0 then delta_y s + of_int dy * FINE_TUNE else delta_y s)\<rparr>,
                  if front then r @ [hole] else hole # r))"

fun find_rows ::
  "geom \<Rightarrow> bool \<Rightarrow> bool \<Rightarrow> int \<Rightarrow> int list \<Rightarrow> scan \<times> int list \<Rightarrow> error + (scan \<times> int list)" where
  "find_rows g front debug col [] sr = Inr sr"
| "find_rows g front debug col (row # rows) sr =
     (case find_cell g front debug col row sr of
        Inl e \<Rightarrow> Inl e
      | Inr sr' \<Rightarrow> find_rows g front debug col rows sr')"

fun find_cols ::
  "geom \<Rightarrow> bool \<Rightarrow> bool \<Rightarrow> int list \<Rightarrow> scan \<times> int list list \<Rightarrow> error + (scan \<times> int list list)" where
  "find_cols g front debug [] sh = Inr sh"
| "find_cols g front debug (col # cols) sh =
     (case find_rows g front debug col [1 .. 13 - 1] (fst sh, []) of
        Inl e \<Rightarrow> Inl e
      | Inr (s', r) \<Rightarrow> find_cols g front debug cols (s', snd sh @ [r]))"

definition find_holes :: "geom \<Rightarrow> bool \<Rightarrow> bool \<Rightarrow> image \<Rightarrow> error + (scan \<times> int list list)" where
  "find_holes g front debug im =
     find_cols g front debug [1 .. 81 - 1] (\<lparr>img = im, delta_x = 0, delta_y = 0\<rparr>, [])"

subsection \<open>The card\<close>

record card =
  final_im :: image
  holes :: "int list list"
  "values" :: "int list"

text \<open>\<^verbatim>\<open>PunchedCard.__init__\<close>, from the image \<^verbatim>\<open>imread\<close> returned; writing the debug
  image to its file is outside the model.\<close>

definition PunchedCard ::
  "(int list \<Rightarrow> int list \<Rightarrow> error + line) \<Rightarrow> image \<Rightarrow> bool \<Rightarrow> bool \<Rightarrow> error + card" where
  "PunchedCard lin im0 front debug =
     (case measure_skew lin debug im0 of Inl e \<Rightarrow> Inl e
      | Inr (l, r, im1) \<Rightarrow>
        (case find_front_edge l r debug im1 of Inl e \<Rightarrow> Inl e
         | Inr (yb, im2) \<Rightarrow>
           (case find_holes \<lparr>lrl = l, lrr = r, y_front = yb\<rparr> front debug im2 of Inl e \<Rightarrow> Inl e
            | Inr (s, hs) \<Rightarrow> Inr \<lparr>final_im = img s, holes = hs, values = card_values hs\<rparr>)))"

text \<open>The classifications of the cells of one column in detection order: the flag of
  each cell in turn, the scan state threaded through.\<close>

fun detections :: "geom \<Rightarrow> bool \<Rightarrow> int \<Rightarrow> int list \<Rightarrow> scan \<Rightarrow> error + (scan \<times> int list)" where
  "detections g debug col [] s = Inr (s, [])"
| "detections g debug col (row # rows) s =
     (case find_cell g True debug col row (s, []) of
        Inl e \<Rightarrow> Inl e
      | Inr (s1, flag) \<Rightarrow>
          (case detections g debug col rows s1 of
             Inl e \<Rightarrow> Inl e
           | Inr (s2, ds) \<Rightarrow> Inr (s2, flag @ ds)))"

text \<open>The number of cells of a column classified punched.\<close>

definition punched :: "int list \<Rightarrow> nat" where
  "punched r = length (filter (\<lambda>h. h \<noteq> 0) r)"

subsection \<open>Test images\<close>


definition grey49 :: image where
  "grey49 = \<lparr>ymax = 20, xmax = 30, chans = None,
             pix = (\<lambda>r c k. if r = 13 \<and> c = 12 then 49 else 50)\<rparr>"

text \<open>A greyscale image of 60 rows and 600 columns, white (255) left of column 490 and
  black (0) from there on, with vertical edge lines at \<open>x = 50\<close> and \<open>x = 540\<close> and the
  front edge at row 68: column 1 of the grid lies on row 30.\<close>

definition strip :: image where
  "strip = \<lparr>ymax = 60, xmax = 600, chans = None, pix = (\<lambda>r c k. if c < 490 then 255 else 0)\<rparr>"

definition flat :: geom where
  "flat = \<lparr>lrl = \<lparr>slope = 0, intercept = 50\<rparr>, lrr = \<lparr>slope = 0, intercept = 540\<rparr>, y_front = 68\<rparr>"

text \<open>A white greyscale image of the size of a scan (1181 rows, 590 columns), with two
  coinciding vertical edge lines through its middle and the front edge at the last
  row.\<close>

definition white :: image where
  "white = \<lparr>ymax = 1181, xmax = 590, chans = None, pix = (\<lambda>r c k. 255)\<rparr>"

definition middle :: line where
  "middle = \<lparr>slope = 0, intercept = 295\<rparr>"

definition upright :: geom where
  "upright = \<lparr>lrl = middle, lrr = middle, y_front = 1181\<rparr>"

text \<open>A greyscale image of 400 rows and 130 columns, black but for a white band in the
  columns 58 to 71.\<close>

definition band :: image where
  "band = \<lparr>ymax = 400, xmax = 130, chans = None,
            pix = (\<lambda>r c k. if 58 \<le> c \<and> c < 72 then 255 else 0)\<rparr>"

section \<open>The table and the column values\<close>

lemma fold_upd_lookup:
  "fold (\<lambda>(k, v) m. m(k \<mapsto> v)) xs m0 k =
     (case map_of (rev xs) k of None \<Rightarrow> m0 k | Some v \<Rightarrow> Some v)"
proof (induction xs arbitrary: m0)
  case Nil
  show ?case by simp
next
  case (Cons p xs)
  obtain a b where p: "p = (a, b)" by (cases p)
  have "fold (\<lambda>(k, v) m. m(k \<mapsto> v)) (p # xs) m0 k
        = fold (\<lambda>(k, v) m. m(k \<mapsto> v)) xs (m0(a \<mapsto> b)) k"
    by (simp add: p)
  also have "\<dots> = (case map_of (rev xs) k of None \<Rightarrow> (m0(a \<mapsto> b)) k | Some v \<Rightarrow> Some v)"
    by (rule Cons.IH)
  also have "\<dots> = (case map_of (rev (p # xs)) k of None \<Rightarrow> m0 k | Some v \<Rightarrow> Some v)"
    by (simp add: p map_add_def split: option.splits)
  finally show ?case .
qed

lemma hollerith_map_of: "HOLLERITH_TO_EBCDIC = map_of (rev hollerith_entries)"
  by (rule ext) (simp add: HOLLERITH_TO_EBCDIC_def fold_upd_lookup split: option.splits)

lemma hollerith_dom: "dom HOLLERITH_TO_EBCDIC = set (map fst hollerith_entries)"
  by (simp add: hollerith_map_of dom_map_of_conv_image_fst)

lemma hollerith_length: "length hollerith_entries = 256"
  unfolding hollerith_entries_def by simp

lemma hollerith_distinct: "distinct (map fst hollerith_entries)"
  unfolding hollerith_entries_def by simp

lemma hollerith_ranges:
  "\<forall>(k, v) \<in> set hollerith_entries. 0 \<le> k \<and> k \<le> 4095 \<and> 0 \<le> v \<and> v \<le> 255"
  unfolding hollerith_entries_def by simp

lemma hollerith_card: "card (dom HOLLERITH_TO_EBCDIC) = 256"
  using distinct_card [OF hollerith_distinct] by (simp add: hollerith_dom hollerith_length)

lemma hollerith_key_range: "k \<in> dom HOLLERITH_TO_EBCDIC \<Longrightarrow> 0 \<le> k \<and> k \<le> 4095"
  using hollerith_ranges by (auto simp: hollerith_dom)

lemma hollerith_val_range: "HOLLERITH_TO_EBCDIC k = Some v \<Longrightarrow> 0 \<le> v \<and> v \<le> 255"
proof -
  assume "HOLLERITH_TO_EBCDIC k = Some v"
  then have "(k, v) \<in> set hollerith_entries"
    by (auto simp: hollerith_map_of dest: map_of_SomeD)
  with hollerith_ranges show ?thesis by auto
qed

lemma hollerith_get_byte: "0 \<le> hollerith_get i \<and> hollerith_get i < 256"
  using hollerith_val_range [of i]
  by (auto simp: hollerith_get_def split: option.splits)

lemma ebcdic_total: "ebcdic vals = Inr (map hollerith_get vals)"
  by (simp add: ebcdic_def bytes_def list_all_iff hollerith_get_byte)

text \<open>
  Claim C8. The keys written in the table are pairwise distinct, so the dictionary has
  one entry for each of the 256 literals; every key lies in \<open>[0, 4095]\<close> and every
  value in \<open>[0, 255]\<close>; a column value that is not a key is translated to 0, and
  \<^verbatim>\<open>ebcdic\<close> never raises.
\<close>

theorem hollerith_table_complete:
  "distinct (map fst hollerith_entries) \<and> length hollerith_entries = 256
   \<and> card (dom HOLLERITH_TO_EBCDIC) = 256
   \<and> (\<forall>k \<in> dom HOLLERITH_TO_EBCDIC. 0 \<le> k \<and> k \<le> 4095)
   \<and> (\<forall>v \<in> ran HOLLERITH_TO_EBCDIC. 0 \<le> v \<and> v \<le> 255)
   \<and> (\<forall>i. i \<notin> dom HOLLERITH_TO_EBCDIC \<longrightarrow> hollerith_get i = 0)
   \<and> (\<forall>vals. ebcdic vals = Inr (map hollerith_get vals))"
proof -
  have "\<forall>i. i \<notin> dom HOLLERITH_TO_EBCDIC \<longrightarrow> hollerith_get i = 0"
    by (auto simp: hollerith_get_def split: option.splits)
  moreover have "\<forall>v \<in> ran HOLLERITH_TO_EBCDIC. 0 \<le> v \<and> v \<le> 255"
    using hollerith_val_range by (auto simp: ran_def)
  ultimately show ?thesis
    using hollerith_distinct hollerith_length hollerith_card hollerith_key_range ebcdic_total
    by blast
qed

lemma absent_4095: "4095 \<notin> dom HOLLERITH_TO_EBCDIC"
  unfolding hollerith_dom hollerith_entries_def by simp

lemma present_2817: "HOLLERITH_TO_EBCDIC 0b101100000001 = Some 0x41"
  unfolding hollerith_map_of hollerith_entries_def by simp

theorem hollerith_table_complete_witness:
  "4095 \<notin> dom HOLLERITH_TO_EBCDIC \<and> hollerith_get 4095 = 0
   \<and> 0b101100000001 \<in> dom HOLLERITH_TO_EBCDIC \<and> 0 \<le> (0b101100000001 :: int) \<and> (0b101100000001 :: int) \<le> 4095
   \<and> 0x41 \<in> ran HOLLERITH_TO_EBCDIC \<and> 0 \<le> (0x41 :: int) \<and> (0x41 :: int) \<le> 255
   \<and> ebcdic [0b101100000001, 4095, -1] = Inr [0x41, 0, 0]"
proof -
  have a: "4095 \<notin> dom HOLLERITH_TO_EBCDIC" by (rule absent_4095)
  have b: "HOLLERITH_TO_EBCDIC 0b101100000001 = Some 0x41" by (rule present_2817)
  have c: "-1 \<notin> dom HOLLERITH_TO_EBCDIC"
    using hollerith_table_complete by force
  have g: "hollerith_get 4095 = 0" "hollerith_get (-1) = 0"
    using hollerith_table_complete a c by blast+
  have h: "hollerith_get 0b101100000001 = 0x41"
    by (simp add: hollerith_get_def b)
  have "ebcdic [0b101100000001, 4095, -1] = Inr (map hollerith_get [0b101100000001, 4095, -1])"
    using hollerith_table_complete by blast
  then have e: "ebcdic [0b101100000001, 4095, -1] = Inr [0x41, 0, 0]"
    using g h by simp
  show ?thesis using a b g e by (auto simp: ran_def dom_def)
qed

lemma column_value_Cons: "column_value (x # xs) = 2 ^ length xs * x + column_value xs"
  by (simp add: column_value_def enumerate_append_eq)

lemma sum_list_upt_Suc_shift:
  "(\<Sum>i\<leftarrow>[0..<Suc n]. f i) = f 0 + (\<Sum>i\<leftarrow>[0..<n]. f (Suc i))"
proof -
  have "[0..<Suc n] = 0 # map Suc [0..<n]"
    by (simp add: upt_conv_Cons map_Suc_upt del: upt_Suc)
  then show ?thesis by (simp add: comp_def del: upt_Suc)
qed

lemma column_value_weights:
  "column_value r = (\<Sum>i\<leftarrow>[0..<length r]. r ! i * 2 ^ (length r - 1 - i))"
proof (induction r)
  case Nil
  show ?case by (simp add: column_value_def)
next
  case (Cons x xs)
  show ?case
    by (simp add: column_value_Cons Cons.IH sum_list_upt_Suc_shift del: upt_Suc)
qed


section \<open>The offset search of the hole detector\<close>

lemma fold_first_min:
  fixes f :: "'a \<Rightarrow> int"
  assumes "fold (\<lambda>p (w, off). if f p < w then (f p, p) else (w, off)) ps (w0, o0) = (w, off)"
  shows "(\<forall>j<length ps. w \<le> f (ps ! j))
       \<and> ((w = w0 \<and> off = o0)
          \<or> (w < w0 \<and> (\<exists>i<length ps. off = ps ! i \<and> w = f (ps ! i) \<and> (\<forall>j<i. w < f (ps ! j)))))"
  using assms
proof (induction ps arbitrary: w off rule: rev_induct)
  case Nil
  then show ?case by simp
next
  case (snoc p ps)
  obtain w1 o1 where mid:
    "fold (\<lambda>p (w, off). if f p < w then (f p, p) else (w, off)) ps (w0, o0) = (w1, o1)"
    by (cases "fold (\<lambda>p (w, off). if f p < w then (f p, p) else (w, off)) ps (w0, o0)")
  note ih = snoc.IH [OF mid]
  from snoc.prems mid have last: "(if f p < w1 then (f p, p) else (w1, o1)) = (w, off)"
    by simp
  show ?case
  proof (cases "f p < w1")
    case True
    with last have eq: "w = f p" "off = p" by auto
    have below: "\<forall>j<length ps. w < f (ps ! j)"
      using ih True eq by fastforce
    have lt0: "w < w0" using ih True eq by auto
    have "\<forall>j<length (ps @ [p]). w \<le> f ((ps @ [p]) ! j)"
      using below eq by (auto simp: nth_append less_Suc_eq)
    moreover have "\<exists>i<length (ps @ [p]). off = (ps @ [p]) ! i \<and> w = f ((ps @ [p]) ! i)
        \<and> (\<forall>j<i. w < f ((ps @ [p]) ! j))"
      using below eq by (intro exI [of _ "length ps"]) (simp add: nth_append)
    ultimately show ?thesis using lt0 by blast
  next
    case False
    with last have eq: "w = w1" "off = o1" by auto
    have a: "\<forall>j<length (ps @ [p]). w \<le> f ((ps @ [p]) ! j)"
      using ih False eq by (auto simp: nth_append less_Suc_eq)
    from ih have "(w1 = w0 \<and> o1 = o0)
        \<or> (w1 < w0 \<and> (\<exists>i<length ps. o1 = ps ! i \<and> w1 = f (ps ! i) \<and> (\<forall>j<i. w1 < f (ps ! j))))"
      by blast
    then show ?thesis
    proof
      assume "w1 = w0 \<and> o1 = o0"
      with a eq show ?thesis by simp
    next
      assume "w1 < w0 \<and> (\<exists>i<length ps. o1 = ps ! i \<and> w1 = f (ps ! i) \<and> (\<forall>j<i. w1 < f (ps ! j)))"
      then obtain i where i: "w1 < w0" "i < length ps" "o1 = ps ! i" "w1 = f (ps ! i)"
          "\<forall>j<i. w1 < f (ps ! j)"
        by blast
      have "\<exists>i<length (ps @ [p]). off = (ps @ [p]) ! i \<and> w = f ((ps @ [p]) ! i)
          \<and> (\<forall>j<i. w < f ((ps @ [p]) ! j))"
        using i eq by (intro exI [of _ i]) (simp add: nth_append)
      with a i eq show ?thesis by blast
    qed
  qed
qed

lemma is_hole_search_fold:
  "is_hole_search im x y =
     fold (\<lambda>p (w, off). if (\<lambda>(dx, dy). ww im x y dx dy) p < w then ((\<lambda>(dx, dy). ww im x y dx dy) p, p) else (w, off))
       offsets (9000000000, (0, 0))"
proof -
  have "(\<lambda>(dx, dy) (w, off). let w2 = ww im x y dx dy in if w2 < w then (w2, (dx, dy)) else (w, off))
      = (\<lambda>p (w, off). if (\<lambda>(dx, dy). ww im x y dx dy) p < w then ((\<lambda>(dx, dy). ww im x y dx dy) p, p) else (w, off))"
    by (auto simp: fun_eq_iff Let_def)
  then show ?thesis by (simp only: is_hole_search_def)
qed

lemma offsets_enum:
  "offsets = [(- 1, - 2), (- 1, - 1), (- 1, 0), (- 1, 1), (- 1, 2),
              (0, - 2), (0, - 1), (0, 0), (0, 1), (0, 2),
              (1, - 2), (1, - 1), (1, 0), (1, 1), (1, 2)]"
  by (simp add: offsets_def)

text \<open>
  Claim C10. The search is a total function of the image and the point. Whenever some
  candidate window sums below the initial sentinel \<^verbatim>\<open>9e9\<close> (every window of a scan
  with 8-bit or 16-bit samples does), the offset selected is the first one, in the
  order \<open>dx = -1, 0, 1\<close> outermost and \<open>dy = -2, ..., 2\<close> innermost, whose window sum is
  the least: no candidate has a smaller sum and every earlier candidate has a strictly
  larger one.
\<close>

theorem is_hole_search_first_minimum:
  assumes "is_hole_search im x y = (w, off)"
    and "\<exists>p \<in> set offsets. ww im x y (fst p) (snd p) < 9000000000"
  shows "\<exists>i<length offsets. off = offsets ! i
           \<and> w = ww im x y (fst (offsets ! i)) (snd (offsets ! i))
           \<and> (\<forall>j<length offsets. w \<le> ww im x y (fst (offsets ! j)) (snd (offsets ! j)))
           \<and> (\<forall>j<i. w < ww im x y (fst (offsets ! j)) (snd (offsets ! j)))"
proof -
  let ?f = "\<lambda>(dx, dy). ww im x y dx dy"
  have f: "\<And>p. ?f p = ww im x y (fst p) (snd p)" by (simp add: case_prod_beta)
  from assms(1) have "fold (\<lambda>p (w, off). if ?f p < w then (?f p, p) else (w, off))
       offsets (9000000000, (0, 0)) = (w, off)"
    by (simp only: is_hole_search_fold)
  from fold_first_min [OF this]
  have all: "\<forall>j<length offsets. w \<le> ?f (offsets ! j)"
    and alt: "(w = 9000000000 \<and> off = (0, 0))
       \<or> (w < 9000000000 \<and> (\<exists>i<length offsets. off = offsets ! i \<and> w = ?f (offsets ! i)
             \<and> (\<forall>j<i. w < ?f (offsets ! j))))"
    by blast+
  from assms(2) obtain p where p: "p \<in> set offsets" "?f p < 9000000000"
    by (auto simp: f)
  then obtain j where "j < length offsets" "offsets ! j = p"
    by (auto simp: in_set_conv_nth)
  with all p have "w < 9000000000" by fastforce
  with alt all show ?thesis by (simp only: f) blast
qed

theorem is_hole_search_first_minimum_witness:
  "is_hole_search grey49 12 10 = (4549, (- 1, 0))
   \<and> ww grey49 12 10 (- 1) 0 < 9000000000
   \<and> offsets ! 2 = (- 1, 0)
   \<and> ww grey49 12 10 (- 1) (- 2) = 4550 \<and> ww grey49 12 10 (- 1) (- 1) = 4550
   \<and> ww grey49 12 10 0 0 = 4549
   \<and> (\<exists>i<length offsets. (- 1, 0) = offsets ! i
         \<and> (\<forall>j<length offsets. 4549 \<le> ww grey49 12 10 (fst (offsets ! j)) (snd (offsets ! j)))
         \<and> (\<forall>j<i. 4549 < ww grey49 12 10 (fst (offsets ! j)) (snd (offsets ! j))))"
proof -
  have s: "is_hole_search grey49 12 10 = (4549, (- 1, 0))" by code_simp
  have v: "ww grey49 12 10 (- 1) 0 = 4549" by code_simp
  have o: "offsets ! 2 = (- 1, 0)" by (simp add: offsets_enum)
  have m: "(- 1, 0) \<in> set offsets" by (simp add: offsets_enum)
  have h: "\<exists>p \<in> set offsets. ww grey49 12 10 (fst p) (snd p) < 9000000000"
    using m v by force
  have w: "ww grey49 12 10 (- 1) (- 2) = 4550 \<and> ww grey49 12 10 (- 1) (- 1) = 4550
      \<and> ww grey49 12 10 0 0 = 4549" by code_simp
  from is_hole_search_first_minimum [OF s h] have
    "\<exists>i<length offsets. (- 1, 0) = offsets ! i
         \<and> (\<forall>j<length offsets. 4549 \<le> ww grey49 12 10 (fst (offsets ! j)) (snd (offsets ! j)))
         \<and> (\<forall>j<i. 4549 < ww grey49 12 10 (fst (offsets ! j)) (snd (offsets ! j)))"
    by blast
  with s v o w show ?thesis by simp
qed

section \<open>The classification of a cell\<close>

lemma is_hole_search_weight:
  "fst (is_hole_search im x y) = min 9000000000 (min_window_sum im x y)"
proof -
  let ?f = "\<lambda>(dx, dy). ww im x y dx dy"
  obtain w off where wo: "is_hole_search im x y = (w, off)"
    by (cases "is_hole_search im x y")
  then have "fold (\<lambda>p (w, off). if ?f p < w then (?f p, p) else (w, off))
       offsets (9000000000, (0, 0)) = (w, off)"
    by (simp only: is_hole_search_fold)
  from fold_first_min [OF this]
  have all: "\<forall>j<length offsets. w \<le> ?f (offsets ! j)"
    and alt: "(w = 9000000000 \<and> off = (0, 0))
       \<or> (w < 9000000000 \<and> (\<exists>i<length offsets. off = offsets ! i \<and> w = ?f (offsets ! i)
             \<and> (\<forall>j<i. w < ?f (offsets ! j))))"
    by blast+
  have ne: "?f ` set offsets \<noteq> {}" by (simp add: offsets_enum)
  have fin: "finite (?f ` set offsets)" by simp
  have "\<forall>p \<in> set offsets. w \<le> ?f p"
    using all by (metis in_set_conv_nth)
  then have low: "w \<le> min_window_sum im x y"
    unfolding min_window_sum_def
    by (subst Min_ge_iff [OF fin ne]) blast
  from alt show ?thesis
  proof
    assume "w = 9000000000 \<and> off = (0, 0)"
    with low wo show ?thesis by simp
  next
    assume "w < 9000000000 \<and> (\<exists>i<length offsets. off = offsets ! i \<and> w = ?f (offsets ! i)
             \<and> (\<forall>j<i. w < ?f (offsets ! j)))"
    then obtain i where i: "w < 9000000000" "i < length offsets" "w = ?f (offsets ! i)"
      by blast
    then have "w \<in> ?f ` set offsets" by (metis imageI nth_mem)
    then have "min_window_sum im x y \<le> w"
      unfolding min_window_sum_def by (rule Min_le [OF fin])
    with low i wo show ?thesis by simp
  qed
qed



lemma threshold_value:
  "threshold im = 13 * 7 * 50 * (case chans im of None \<Rightarrow> 1 | Some n \<Rightarrow> int n)"
  by (simp add: threshold_def HOLE_X_def HOLE_Y_def THRESHOLD_def split: option.splits)




text \<open>Supporting facts: a scan with samples of at most 16 bits never reaches the
  sentinel, and away from the border of the image \<^verbatim>\<open>is_hole\<close> returns.\<close>

lemma slice_length: "length (slice n a (a + int k)) \<le> k"
  by (auto simp: slice_def slice_index_def)

lemma sum_list_le_length:
  fixes f :: "'a \<Rightarrow> nat"
  assumes "\<forall>x \<in> set xs. f x \<le> B"
  shows "(\<Sum>x\<leftarrow>xs. f x) \<le> length xs * B"
  using assms by (induction xs) auto

lemma window_sum_le:
  assumes "\<forall>r c. sample im r c \<le> B"
  shows "window_sum im r0 (r0 + int h) c0 (c0 + int k) \<le> int (h * (k * B))"
proof -
  have row: "(\<Sum>c\<leftarrow>slice (xmax im) c0 (c0 + int k). sample im r c) \<le> k * B" for r
  proof -
    have "(\<Sum>c\<leftarrow>slice (xmax im) c0 (c0 + int k). sample im r c)
        \<le> length (slice (xmax im) c0 (c0 + int k)) * B"
      using assms by (intro sum_list_le_length) simp
    also have "\<dots> \<le> k * B"
      by (rule mult_le_mono1) (rule slice_length)
    finally show ?thesis .
  qed
  have "(\<Sum>r\<leftarrow>slice (ymax im) r0 (r0 + int h). \<Sum>c\<leftarrow>slice (xmax im) c0 (c0 + int k). sample im r c)
      \<le> length (slice (ymax im) r0 (r0 + int h)) * (k * B)"
    using row by (intro sum_list_le_length) simp
  also have "\<dots> \<le> h * (k * B)"
    by (rule mult_le_mono1) (rule slice_length)
  finally show ?thesis by (simp only: window_sum_def of_nat_le_iff)
qed

lemma ww_le:
  assumes "\<forall>r c. sample im r c \<le> B"
  shows "ww im x y dx dy \<le> 91 * int B"
proof -
  have "dy + y + HOLE_Y + 1 = (dy + y - HOLE_Y) + int 7"
    and "dx + x + HOLE_X + 1 = (dx + x - HOLE_X) + int 13"
    by (simp_all add: HOLE_X_def HOLE_Y_def)
  then have "ww im x y dx dy
      = window_sum im (dy + y - HOLE_Y) ((dy + y - HOLE_Y) + int 7)
          (dx + x - HOLE_X) ((dx + x - HOLE_X) + int 13)"
    by (simp only: ww_def Let_def)
  also have "\<dots> \<le> int (7 * (13 * B))" using assms by (rule window_sum_le)
  finally show ?thesis by simp
qed

lemma ww_below_sentinel:
  assumes "\<forall>r c. sample im r c \<le> 98901098"
  shows "\<exists>p \<in> set offsets. ww im x y (fst p) (snd p) < 9000000000"
proof -
  have "ww im x y 0 0 \<le> 91 * int 98901098" using assms by (rule ww_le)
  then have "ww im x y (fst (0, 0)) (snd (0, 0)) < 9000000000" by simp
  moreover have "(0, 0) \<in> set offsets" by (simp add: offsets_enum)
  ultimately show ?thesis by blast
qed

lemma is_hole_search_offset: "snd (is_hole_search im x y) \<in> set offsets"
proof -
  let ?f = "\<lambda>(dx, dy). ww im x y dx dy"
  obtain w off where wo: "is_hole_search im x y = (w, off)"
    by (cases "is_hole_search im x y")
  then have "fold (\<lambda>p (w, off). if ?f p < w then (?f p, p) else (w, off))
       offsets (9000000000, (0, 0)) = (w, off)"
    by (simp only: is_hole_search_fold)
  from fold_first_min [OF this]
  have "off = (0, 0) \<or> (\<exists>i<length offsets. off = offsets ! i)" by blast
  moreover have "(0, 0) \<in> set offsets" by (simp add: offsets_enum)
  ultimately show ?thesis using wo by auto
qed

lemma put_ok:
  assumes "- int (ymax im) \<le> fst p" "fst p < int (ymax im)"
    and "- int (xmax im) \<le> snd p" "snd p < int (xmax im)"
  shows "\<exists>im'. put im p v = Inr im' \<and> ymax im' = ymax im \<and> xmax im' = xmax im"
  using assms by (auto simp: put_def py_index_def)

lemma draw_ok:
  assumes "\<forall>q \<in> set ps. - int (ymax im) \<le> fst (fst q) \<and> fst (fst q) < int (ymax im)
             \<and> - int (xmax im) \<le> snd (fst q) \<and> snd (fst q) < int (xmax im)"
  shows "\<exists>im'. draw ps im = Inr im' \<and> ymax im' = ymax im \<and> xmax im' = xmax im"
  using assms
proof (induction ps arbitrary: im)
  case Nil
  then show ?case by simp
next
  case (Cons q ps)
  obtain p v where q: "q = (p, v)" by (cases q)
  from Cons.prems q obtain im1 where im1: "put im p v = Inr im1" "ymax im1 = ymax im" "xmax im1 = xmax im"
    using put_ok [of im p v] by auto
  from Cons.prems im1 have "\<exists>im'. draw ps im1 = Inr im' \<and> ymax im' = ymax im1 \<and> xmax im' = xmax im1"
    by (intro Cons.IH) simp
  with im1 q show ?case by auto
qed

lemma outline_range:
  assumes "(a, b) \<in> set (outline ry rx)"
  shows "ry - 3 \<le> a \<and> a \<le> ry + 3 \<and> rx - 6 \<le> b \<and> b \<le> rx + 6"
  using assms by (auto simp: outline_def HOLE_X_def HOLE_Y_def)

lemma is_hole_returns:
  assumes "4 - int (ymax im) \<le> y" "y \<le> int (ymax im) - 5"
    and "8 - int (xmax im) \<le> x" "x \<le> int (xmax im) - 9"
  shows "\<exists>res. is_hole debug im x y = Inr res"
proof -
  obtain w off where wo: "is_hole_search im x y = (w, off)"
    by (cases "is_hole_search im x y")
  have "off \<in> set offsets" using is_hole_search_offset [of im x y] wo by simp
  then have off: "- 1 \<le> fst off" "fst off \<le> 1" "- 2 \<le> snd off" "snd off \<le> 2"
    by (auto simp: offsets_enum)
  have "\<forall>q \<in> set (map (\<lambda>p. (p, 255::nat)) (outline (y + fst off) (x + snd off))).
          - int (ymax im) \<le> fst (fst q) \<and> fst (fst q) < int (ymax im)
          \<and> - int (xmax im) \<le> snd (fst q) \<and> snd (fst q) < int (xmax im)"
    using assms off by (auto dest!: outline_range)
  from draw_ok [OF this] obtain im' where
    "draw (map (\<lambda>p. (p, 255)) (outline (y + fst off) (x + snd off))) im = Inr im'"
    by blast
  with wo show ?thesis by (simp add: is_hole_def Let_def)
qed
section \<open>The scan of the grid\<close>

lemma is_hole_result:
  assumes "is_hole debug im x y = Inr (im', hole, w, dx, dy)"
  shows "(hole = 1 \<and> (w, (dx, dy)) = is_hole_search im x y \<and> w < threshold im)
       \<or> (hole = 0 \<and> w = 0 \<and> dx = 0 \<and> dy = 0
           \<and> im' = (if debug then dim im x y else im) \<and> \<not> fst (is_hole_search im x y) < threshold im)"
proof -
  obtain w0 off where wo: "is_hole_search im x y = (w0, off)"
    by (cases "is_hole_search im x y")
  show ?thesis
  proof (cases "w0 < threshold im")
    case True
    with assms wo show ?thesis
      by (auto simp: is_hole_def Let_def split: sum.splits)
  next
    case False
    with assms wo show ?thesis
      by (auto simp: is_hole_def Let_def)
  qed
qed

lemma find_cell_step:
  assumes "find_cell g front debug col row (s, r) = Inr (s', r')"
  shows "\<exists>im' hole w dx dy.
           is_hole debug (img s) (py_int (fst (hole_coord g col row) + delta_x s))
                                 (py_int (snd (hole_coord g col row) + delta_y s))
             = Inr (im', hole, w, dx, dy)
         \<and> img s' = im'
         \<and> r' = (if front then r @ [hole] else hole # r)
         \<and> (hole = 0 \<or> hole = 1)
         \<and> (hole = 0 \<longrightarrow> delta_x s' = delta_x s \<and> delta_y s' = delta_y s)
         \<and> (hole = 1 \<longrightarrow>
               (dx, dy) = snd (is_hole_search (img s)
                                 (py_int (fst (hole_coord g col row) + delta_x s))
                                 (py_int (snd (hole_coord g col row) + delta_y s)))
             \<and> (dx, dy) \<in> set offsets
             \<and> delta_x s' = delta_x s + of_int dx * FINE_TUNE
             \<and> delta_y s' = delta_y s + of_int dy * FINE_TUNE)"
proof -
  let ?x = "py_int (fst (hole_coord g col row) + delta_x s)"
  let ?y = "py_int (snd (hole_coord g col row) + delta_y s)"
  from assms obtain im' hole w dx dy where
    ih: "is_hole debug (img s) ?x ?y = Inr (im', hole, w, dx, dy)"
    by (cases "is_hole debug (img s) ?x ?y")
       (auto simp: find_cell_def Let_def case_prod_beta)
  from assms ih have s': "s' = \<lparr>img = im',
        delta_x = (if hole \<noteq> 0 then delta_x s + of_int dx * FINE_TUNE else delta_x s),
        delta_y = (if hole \<noteq> 0 then delta_y s + of_int dy * FINE_TUNE else delta_y s)\<rparr>"
    and r': "r' = (if front then r @ [hole] else hole # r)"
    by (auto simp: find_cell_def Let_def case_prod_beta)
  from is_hole_result [OF ih] have
    alt: "(hole = 1 \<and> (w, (dx, dy)) = is_hole_search (img s) ?x ?y) \<or> hole = 0"
    by blast
  have mem: "hole = 1 \<Longrightarrow> (dx, dy) \<in> set offsets"
    using alt is_hole_search_offset [of "img s" ?x ?y] by (auto simp: snd_def split: prod.splits)
  have sel: "hole = 1 \<Longrightarrow> (dx, dy) = snd (is_hole_search (img s) ?x ?y)"
    using alt by (auto simp: snd_def split: prod.splits)
  show ?thesis
    using ih s' r' alt mem sel by (intro exI [of _ im'] exI [of _ hole] exI [of _ w] exI [of _ dx] exI [of _ dy]) auto
qed

lemma punched_append: "punched (r @ [h]) = punched r + (if h \<noteq> 0 then 1 else 0)"
  and punched_Cons: "punched (h # r) = punched r + (if h \<noteq> 0 then 1 else 0)"
  by (simp_all add: punched_def)

lemma find_cell_drift:
  assumes "find_cell g front debug col row (s, r) = Inr (s', r')"
  shows "\<exists>offs. punched r' = punched r + length offs \<and> set offs \<subseteq> set offsets
           \<and> delta_x s' = delta_x s + FINE_TUNE * (\<Sum>p\<leftarrow>offs. of_int (fst p))
           \<and> delta_y s' = delta_y s + FINE_TUNE * (\<Sum>p\<leftarrow>offs. of_int (snd p))"
proof -
  from find_cell_step [OF assms] obtain hole dx dy where
    r': "r' = (if front then r @ [hole] else hole # r)"
    and h: "hole = 0 \<or> hole = 1"
    and h0: "hole = 0 \<longrightarrow> delta_x s' = delta_x s \<and> delta_y s' = delta_y s"
    and h1: "hole = 1 \<longrightarrow> (dx, dy) \<in> set offsets
             \<and> delta_x s' = delta_x s + of_int dx * FINE_TUNE
             \<and> delta_y s' = delta_y s + of_int dy * FINE_TUNE"
    by blast
  from h show ?thesis
  proof
    assume "hole = 0"
    with r' h0 show ?thesis
      by (intro exI [of _ "[]"]) (simp add: punched_append punched_Cons)
  next
    assume "hole = 1"
    with r' h1 show ?thesis
      by (intro exI [of _ "[(dx, dy)]"]) (simp add: punched_append punched_Cons)
  qed
qed

lemma find_rows_drift:
  assumes "find_rows g front debug col rows (s, r) = Inr (s', r')"
  shows "\<exists>offs. punched r' = punched r + length offs \<and> set offs \<subseteq> set offsets
           \<and> delta_x s' = delta_x s + FINE_TUNE * (\<Sum>p\<leftarrow>offs. of_int (fst p))
           \<and> delta_y s' = delta_y s + FINE_TUNE * (\<Sum>p\<leftarrow>offs. of_int (snd p))"
  using assms
proof (induction rows arbitrary: s r)
  case Nil
  then show ?case by (intro exI [of _ "[]"]) simp
next
  case (Cons row rows)
  from Cons.prems obtain s1 r1 where
    c: "find_cell g front debug col row (s, r) = Inr (s1, r1)"
    and rest: "find_rows g front debug col rows (s1, r1) = Inr (s', r')"
    by (cases "find_cell g front debug col row (s, r)") auto
  from find_cell_drift [OF c] obtain o1 where o1:
    "punched r1 = punched r + length o1" "set o1 \<subseteq> set offsets"
    "delta_x s1 = delta_x s + FINE_TUNE * (\<Sum>p\<leftarrow>o1. of_int (fst p))"
    "delta_y s1 = delta_y s + FINE_TUNE * (\<Sum>p\<leftarrow>o1. of_int (snd p))"
    by blast
  from Cons.IH [OF rest] obtain o2 where o2:
    "punched r' = punched r1 + length o2" "set o2 \<subseteq> set offsets"
    "delta_x s' = delta_x s1 + FINE_TUNE * (\<Sum>p\<leftarrow>o2. of_int (fst p))"
    "delta_y s' = delta_y s1 + FINE_TUNE * (\<Sum>p\<leftarrow>o2. of_int (snd p))"
    by blast
  show ?case
    using o1 o2 by (intro exI [of _ "o1 @ o2"]) (simp add: algebra_simps)
qed

lemma punched_concat_append: "punched (a @ b) = punched a + punched b"
  by (simp add: punched_def)

lemma find_cols_drift:
  assumes "find_cols g front debug cols (s, hs) = Inr (s', hs')"
  shows "\<exists>offs. punched (concat hs') = punched (concat hs) + length offs
           \<and> set offs \<subseteq> set offsets
           \<and> delta_x s' = delta_x s + FINE_TUNE * (\<Sum>p\<leftarrow>offs. of_int (fst p))
           \<and> delta_y s' = delta_y s + FINE_TUNE * (\<Sum>p\<leftarrow>offs. of_int (snd p))"
  using assms
proof (induction cols arbitrary: s hs)
  case Nil
  then show ?case by (intro exI [of _ "[]"]) simp
next
  case (Cons col cols)
  from Cons.prems obtain s1 r1 where
    c: "find_rows g front debug col [1 .. 13 - 1] (s, []) = Inr (s1, r1)"
    and rest: "find_cols g front debug cols (s1, hs @ [r1]) = Inr (s', hs')"
    by (cases "find_rows g front debug col [1 .. 13 - 1] (s, [])") auto
  from find_rows_drift [OF c] obtain o1 where o1:
    "punched r1 = punched [] + length o1" "set o1 \<subseteq> set offsets"
    "delta_x s1 = delta_x s + FINE_TUNE * (\<Sum>p\<leftarrow>o1. of_int (fst p))"
    "delta_y s1 = delta_y s + FINE_TUNE * (\<Sum>p\<leftarrow>o1. of_int (snd p))"
    by blast
  from Cons.IH [OF rest] obtain o2 where o2:
    "punched (concat hs') = punched (concat (hs @ [r1])) + length o2" "set o2 \<subseteq> set offsets"
    "delta_x s' = delta_x s1 + FINE_TUNE * (\<Sum>p\<leftarrow>o2. of_int (fst p))"
    "delta_y s' = delta_y s1 + FINE_TUNE * (\<Sum>p\<leftarrow>o2. of_int (snd p))"
    by blast
  have "punched [] = 0" by (simp add: punched_def)
  then show ?case
    using o1 o2 by (intro exI [of _ "o1 @ o2"]) (simp add: algebra_simps punched_concat_append)
qed

lemma offsets_sum_bound:
  assumes "set offs \<subseteq> set offsets"
  shows "\<bar>\<Sum>p\<leftarrow>offs. (of_int (fst p) :: real)\<bar> \<le> real (length offs)
       \<and> \<bar>\<Sum>p\<leftarrow>offs. (of_int (snd p) :: real)\<bar> \<le> 2 * real (length offs)"
  using assms
proof (induction offs)
  case Nil
  then show ?case by simp
next
  case (Cons p offs)
  then have "p \<in> set offsets" by simp
  then have "\<bar>of_int (fst p) :: real\<bar> \<le> 1 \<and> \<bar>of_int (snd p) :: real\<bar> \<le> 2"
    by (auto simp: offsets_enum)
  with Cons show ?case by auto
qed

lemma find_holes_drift_bound:
  assumes "find_holes g front debug im0 = Inr (s', hs')"
  shows "\<bar>delta_x s'\<bar> \<le> FINE_TUNE * real (punched (concat hs'))
       \<and> \<bar>delta_y s'\<bar> \<le> 2 * FINE_TUNE * real (punched (concat hs'))"
proof -
  from assms have "find_cols g front debug [1 .. 81 - 1]
      (\<lparr>img = im0, delta_x = 0, delta_y = 0\<rparr>, []) = Inr (s', hs')"
    by (simp add: find_holes_def)
  from find_cols_drift [OF this] obtain offs where o:
    "punched (concat hs') = punched (concat []) + length offs" "set offs \<subseteq> set offsets"
    "delta_x s' = FINE_TUNE * (\<Sum>p\<leftarrow>offs. of_int (fst p))"
    "delta_y s' = FINE_TUNE * (\<Sum>p\<leftarrow>offs. of_int (snd p))"
    by auto
  have n: "punched (concat hs') = length offs" using o(1) by (simp add: punched_def)
  have ft: "0 \<le> FINE_TUNE" by (simp add: FINE_TUNE_def)
  from offsets_sum_bound [OF o(2)] have
    bx: "\<bar>\<Sum>p\<leftarrow>offs. (of_int (fst p) :: real)\<bar> \<le> real (length offs)"
    and by': "\<bar>\<Sum>p\<leftarrow>offs. (of_int (snd p) :: real)\<bar> \<le> 2 * real (length offs)"
    by blast+
  have "\<bar>delta_x s'\<bar> = FINE_TUNE * \<bar>\<Sum>p\<leftarrow>offs. (of_int (fst p) :: real)\<bar>"
    using ft by (simp add: o(3) abs_mult)
  also have "\<dots> \<le> FINE_TUNE * real (length offs)"
    using bx ft by (rule mult_left_mono)
  finally have x: "\<bar>delta_x s'\<bar> \<le> FINE_TUNE * real (punched (concat hs'))" by (simp add: n)
  have "\<bar>delta_y s'\<bar> = FINE_TUNE * \<bar>\<Sum>p\<leftarrow>offs. (of_int (snd p) :: real)\<bar>"
    using ft by (simp add: o(4) abs_mult)
  also have "\<dots> \<le> FINE_TUNE * (2 * real (length offs))"
    using by' ft by (rule mult_left_mono)
  finally have "\<bar>delta_y s'\<bar> \<le> 2 * FINE_TUNE * real (punched (concat hs'))" by (simp add: n)
  with x show ?thesis by blast
qed


lemma find_cell_back:
  "find_cell g False debug col row (s, rev r)
     = map_sum id (\<lambda>(s', r'). (s', rev r')) (find_cell g True debug col row (s, r))"
  by (simp add: find_cell_def Let_def case_prod_beta split: sum.splits)

lemma find_rows_back:
  "find_rows g False debug col rows (s, rev r)
     = map_sum id (\<lambda>(s', r'). (s', rev r')) (find_rows g True debug col rows (s, r))"
proof (induction rows arbitrary: s r)
  case Nil
  show ?case by simp
next
  case (Cons row rows)
  show ?case
  proof (cases "find_cell g True debug col row (s, r)")
    case (Inl e)
    then show ?thesis by (simp add: find_cell_back)
  next
    case (Inr sr)
    obtain s1 r1 where sr: "sr = (s1, r1)" by (cases sr)
    with Inr show ?thesis by (simp add: find_cell_back Cons.IH)
  qed
qed

lemma find_cell_front_acc:
  "find_cell g True debug col row (s, r)
     = map_sum id (\<lambda>(s', flag). (s', r @ flag)) (find_cell g True debug col row (s, []))"
  by (simp add: find_cell_def Let_def case_prod_beta split: sum.splits)

lemma find_rows_front:
  "find_rows g True debug col rows (s, r)
     = map_sum id (\<lambda>(s', ds). (s', r @ ds)) (detections g debug col rows s)"
proof (induction rows arbitrary: s r)
  case Nil
  show ?case by simp
next
  case (Cons row rows)
  show ?case
  proof (cases "find_cell g True debug col row (s, [])")
    case (Inl e)
    then show ?thesis by (simp add: find_cell_front_acc [of g debug col row s r])
  next
    case (Inr sr)
    obtain s1 flag where sr: "sr = (s1, flag)" by (cases sr)
    show ?thesis
    proof (cases "detections g debug col rows s1")
      case (Inl e)
      with Inr sr show ?thesis
        by (simp add: find_cell_front_acc [of g debug col row s r] Cons.IH)
    next
      case (Inr sd)
      obtain s2 ds where sd: "sd = (s2, ds)" by (cases sd)
      from \<open>find_cell g True debug col row (s, []) = Inr sr\<close> sr Inr sd show ?thesis
        by (simp add: find_cell_front_acc [of g debug col row s r] Cons.IH)
    qed
  qed
qed

lemma find_cols_back:
  "find_cols g False debug cols (s, map rev hs)
     = map_sum id (\<lambda>(s', hs'). (s', map rev hs')) (find_cols g True debug cols (s, hs))"
proof (induction cols arbitrary: s hs)
  case Nil
  show ?case by simp
next
  case (Cons col cols)
  have b: "find_rows g False debug col [1 .. 13 - 1] (s, [])
      = map_sum id (\<lambda>(s', r'). (s', rev r')) (find_rows g True debug col [1 .. 13 - 1] (s, []))"
    using find_rows_back [of g debug col "[1 .. 13 - 1]" s "[]"] by simp
  show ?case
  proof (cases "find_rows g True debug col [1 .. 13 - 1] (s, [])")
    case (Inl e)
    with b show ?thesis by simp
  next
    case (Inr sr)
    obtain s1 r1 where sr: "sr = (s1, r1)" by (cases sr)
    from Cons.IH [of s1 "hs @ [r1]"] Inr sr b show ?thesis by simp
  qed
qed

lemma find_holes_back:
  "find_holes g False debug im0
     = map_sum id (\<lambda>(s', hs). (s', map rev hs)) (find_holes g True debug im0)"
  using find_cols_back [of g debug "[1 .. 81 - 1]" "\<lparr>img = im0, delta_x = 0, delta_y = 0\<rparr>" "[]"]
  by (simp add: find_holes_def)

text \<open>
  Claim C7. For the front face the list stored for a column is the sequence of the
  classifications of its cells in detection order; for the back face it is the reverse
  of that sequence. The image and the drift the scan leaves are the same for both, so
  the grid of a back scan is the grid of the front scan of the same image with every
  column reversed.
\<close>

theorem back_face_reverses_column:
  "find_rows g True debug col rows (s, []) = detections g debug col rows s
   \<and> find_rows g False debug col rows (s, [])
       = map_sum id (\<lambda>(s', ds). (s', rev ds)) (detections g debug col rows s)
   \<and> find_holes g False debug im0
       = map_sum id (\<lambda>(s', hs). (s', map rev hs)) (find_holes g True debug im0)"
proof -
  have f: "find_rows g True debug col rows (s, []) = detections g debug col rows s"
    by (cases "detections g debug col rows s") (auto simp: find_rows_front [of g debug col rows s "[]"])
  have "find_rows g False debug col rows (s, rev [])
      = map_sum id (\<lambda>(s', r'). (s', rev r')) (find_rows g True debug col rows (s, []))"
    by (rule find_rows_back)
  with f find_holes_back [of g debug im0] show ?thesis by simp
qed

lemma detections_length:
  "detections g debug col rows s = Inr (s', ds) \<Longrightarrow> length ds = length rows"
proof (induction rows arbitrary: s s' ds)
  case Nil
  then show ?case by simp
next
  case (Cons row rows)
  from Cons.prems obtain s1 flag s2 ds2 where
    c: "find_cell g True debug col row (s, []) = Inr (s1, flag)"
    and d: "detections g debug col rows s1 = Inr (s2, ds2)"
    and e: "ds = flag @ ds2"
    by (auto split: sum.splits)
  from find_cell_step [OF c] have "length flag = 1" by auto
  with Cons.IH [OF d] e show ?case by simp
qed

text \<open>A complete scan: on the white image every cell of the grid is inside the image
  and unpunched.\<close>

lemma slice_inside:
  "0 \<le> a \<Longrightarrow> a \<le> b \<Longrightarrow> b \<le> int n \<Longrightarrow> slice n a b = [nat a ..< nat b]"
  by (auto simp: slice_def slice_index_def)

lemma sum_list_uniform:
  fixes f :: "nat \<Rightarrow> nat"
  assumes "\<And>i. i \<in> set xs \<Longrightarrow> f i = v"
  shows "(\<Sum>i\<leftarrow>xs. f i) = length xs * v"
  using assms by (induction xs) auto

lemma window_sum_uniform:
  assumes u: "\<And>r c. nat r0 \<le> r \<Longrightarrow> r < nat r1 \<Longrightarrow> nat c0 \<le> c \<Longrightarrow> c < nat c1
                 \<Longrightarrow> sample im r c = v"
    and r: "0 \<le> r0" "r0 \<le> r1" "r1 \<le> int (ymax im)"
    and c: "0 \<le> c0" "c0 \<le> c1" "c1 \<le> int (xmax im)"
  shows "window_sum im r0 r1 c0 c1 = int ((nat r1 - nat r0) * ((nat c1 - nat c0) * v))"
proof -
  have row: "(\<Sum>c\<leftarrow>[nat c0 ..< nat c1]. sample im i c) = (nat c1 - nat c0) * v"
    if "i \<in> set [nat r0 ..< nat r1]" for i
  proof -
    from that have "\<And>j. j \<in> set [nat c0 ..< nat c1] \<Longrightarrow> sample im i j = v"
      using u by auto
    from sum_list_uniform [of "[nat c0 ..< nat c1]" "sample im i" v, OF this]
    show ?thesis by simp
  qed
  have "(\<Sum>i\<leftarrow>[nat r0 ..< nat r1]. \<Sum>c\<leftarrow>[nat c0 ..< nat c1]. sample im i c)
      = length [nat r0 ..< nat r1] * ((nat c1 - nat c0) * v)"
    by (rule sum_list_uniform) (rule row)
  then show ?thesis
    by (simp add: window_sum_def slice_inside r c)
qed

lemma ww_uniform:
  assumes u: "\<And>r c. nat (y + dy - 3) \<le> r \<Longrightarrow> r < nat (y + dy + 4)
                 \<Longrightarrow> nat (x + dx - 6) \<le> c \<Longrightarrow> c < nat (x + dx + 7) \<Longrightarrow> sample im r c = v"
    and "3 \<le> y + dy" "y + dy + 4 \<le> int (ymax im)" "6 \<le> x + dx" "x + dx + 7 \<le> int (xmax im)"
  shows "ww im x y dx dy = 91 * int v"
proof -
  have "ww im x y dx dy = window_sum im (y + dy - 3) (y + dy + 4) (x + dx - 6) (x + dx + 7)"
    by (simp add: ww_def Let_def HOLE_X_def HOLE_Y_def algebra_simps)
  also have "\<dots>
      = int ((nat (y + dy + 4) - nat (y + dy - 3)) * ((nat (x + dx + 7) - nat (x + dx - 6)) * v))"
    using assms by (intro window_sum_uniform) simp_all
  also have "\<dots> = 91 * int v" using assms(2-) by (simp add: nat_diff_distrib')
  finally show ?thesis .
qed

lemma is_hole_search_uniform:
  assumes "\<And>dx dy. (dx, dy) \<in> set offsets \<Longrightarrow> ww im x y dx dy = v" and "v < 9000000000"
  shows "is_hole_search im x y = (v, (- 1, - 2))"
  using assms by (simp add: is_hole_search_def offsets_enum)

lemma ww_white:
  assumes "3 \<le> y + dy" "y + dy \<le> 1177" "6 \<le> x + dx" "x + dx \<le> 583"
  shows "ww white x y dx dy = 23205"
  using ww_uniform [of y dy x dx white 255] assms by (simp add: white_def sample_def)

lemma is_hole_miss:
  assumes "threshold im \<le> min_window_sum im x y" and "threshold im \<le> 9000000000"
  shows "is_hole False im x y = Inr (im, 0, 0, 0, 0)"
proof -
  obtain w off where wo: "is_hole_search im x y = (w, off)"
    by (cases "is_hole_search im x y")
  have "w = min 9000000000 (min_window_sum im x y)"
    using is_hole_search_weight [of im x y] wo by simp
  with assms have "\<not> w < threshold im" by simp
  with wo show ?thesis by (simp add: is_hole_def Let_def)
qed

lemma is_hole_white:
  assumes "5 \<le> y" "y \<le> 1175" "7 \<le> x" "x \<le> 582"
  shows "is_hole False white x y = Inr (white, 0, 0, 0, 0)"
proof -
  have "\<forall>p \<in> set offsets. (\<lambda>(dx, dy). ww white x y dx dy) p = 23205"
  proof
    fix p assume "p \<in> set offsets"
    then have "- 1 \<le> fst p \<and> fst p \<le> 1 \<and> - 2 \<le> snd p \<and> snd p \<le> 2"
      by (auto simp: offsets_enum)
    with assms have "ww white x y (fst p) (snd p) = 23205"
      by (intro ww_white) auto
    then show "(\<lambda>(dx, dy). ww white x y dx dy) p = 23205" by (simp add: case_prod_beta)
  qed
  then have "(\<lambda>(dx, dy). ww white x y dx dy) ` set offsets = {23205}"
    by (auto simp: offsets_enum)
  then have m: "min_window_sum white x y = 23205" by (simp add: min_window_sum_def)
  have t: "threshold white = 4550" by (simp add: threshold_value white_def)
  show ?thesis by (rule is_hole_miss) (simp_all add: m t)
qed

lemma py_int_bounds:
  assumes "of_int a \<le> q" "q < of_int b + 1" "0 \<le> a"
  shows "a \<le> py_int q \<and> py_int q \<le> b"
proof -
  from assms have "0 \<le> q" by (metis of_int_0_le_iff order_trans)
  then have "py_int q = \<lfloor>q\<rfloor>" by (simp add: py_int_def)
  with assms show ?thesis by (simp add: le_floor_iff floor_le_iff)
qed

lemma hole_coord_upright:
  "hole_coord upright col row
     = (295 + (of_int row - 6.5) * 37.5, 1181 - (0.25 + 0.087 * of_int (col - 1)) * 150)"
  by (simp add: hole_coord_def upright_def middle_def center_x_def py_int_def DPI_def Let_def)

lemma cell_x_bounds:
  fixes t :: real
  assumes "1 \<le> t" "t \<le> 12"
  shows "88 \<le> 295 + (t - 6.5) * 37.5" and "295 + (t - 6.5) * 37.5 < 502"
  using assms by (simp_all add: field_simps)

lemma cell_y_bounds:
  fixes t :: real
  assumes "1 \<le> t" "t \<le> 80"
  shows "112 \<le> 1181 - (0.25 + 0.087 * (t - 1)) * 150"
    and "1181 - (0.25 + 0.087 * (t - 1)) * 150 < 1144"
  using assms by (simp_all add: field_simps)

lemma find_cell_white:
  assumes "1 \<le> col" "col \<le> 80" "1 \<le> row" "row \<le> 12"
  shows "find_cell upright front False col row (\<lparr>img = white, delta_x = 0, delta_y = 0\<rparr>, r)
       = Inr (\<lparr>img = white, delta_x = 0, delta_y = 0\<rparr>, if front then r @ [0] else 0 # r)"
proof -
  let ?xr = "295 + (of_int row - 6.5) * 37.5 :: real"
  let ?yr = "1181 - (0.25 + 0.087 * of_int (col - 1)) * 150 :: real"
  have rr: "(1::real) \<le> of_int row" "of_int row \<le> (12::real)"
    and cc: "(1::real) \<le> of_int col" "of_int col \<le> (80::real)"
    using assms by simp_all
  have "of_int 88 \<le> ?xr" "?xr < of_int 501 + 1"
    using cell_x_bounds [OF rr] by simp_all
  from py_int_bounds [OF this] have x: "88 \<le> py_int ?xr" "py_int ?xr \<le> 501" by simp_all
  have "of_int 112 \<le> ?yr" "?yr < of_int 1143 + 1"
    using cell_y_bounds [OF cc] by simp_all
  from py_int_bounds [OF this] have y: "112 \<le> py_int ?yr" "py_int ?yr \<le> 1143" by simp_all
  have "is_hole False white (py_int ?xr) (py_int ?yr) = Inr (white, 0, 0, 0, 0)"
    using x y by (intro is_hole_white) simp_all
  then show ?thesis
    by (simp add: find_cell_def hole_coord_upright Let_def)
qed

lemma find_rows_white:
  assumes "1 \<le> col" "col \<le> 80" "\<forall>row \<in> set rows. 1 \<le> row \<and> row \<le> 12"
  shows "find_rows upright front False col rows (\<lparr>img = white, delta_x = 0, delta_y = 0\<rparr>, r)
       = Inr (\<lparr>img = white, delta_x = 0, delta_y = 0\<rparr>,
              if front then r @ replicate (length rows) 0 else replicate (length rows) 0 @ r)"
  using assms(3)
proof (induction rows arbitrary: r)
  case Nil
  then show ?case by simp
next
  case (Cons row rows)
  then have row: "1 \<le> row" "row \<le> 12" and rest: "\<forall>row \<in> set rows. 1 \<le> row \<and> row \<le> 12"
    by simp_all
  have step: "find_rows upright front False col (row # rows) (\<lparr>img = white, delta_x = 0, delta_y = 0\<rparr>, r)
      = find_rows upright front False col rows
          (\<lparr>img = white, delta_x = 0, delta_y = 0\<rparr>, if front then r @ [0] else 0 # r)"
    by (simp add: find_cell_white [OF assms(1,2) row])
  show ?case
    unfolding step Cons.IH [OF rest] by (simp add: replicate_app_Cons_same)
qed

lemma find_cols_white:
  assumes "\<forall>col \<in> set cols. 1 \<le> col \<and> col \<le> 80"
  shows "find_cols upright front False cols (\<lparr>img = white, delta_x = 0, delta_y = 0\<rparr>, hs)
       = Inr (\<lparr>img = white, delta_x = 0, delta_y = 0\<rparr>,
              hs @ replicate (length cols) (replicate 12 0))"
  using assms
proof (induction cols arbitrary: hs)
  case Nil
  then show ?case by simp
next
  case (Cons col cols)
  then have col: "1 \<le> col" "col \<le> 80" and rest: "\<forall>col \<in> set cols. 1 \<le> col \<and> col \<le> 80"
    by simp_all
  have "\<forall>row \<in> set [1 .. 13 - 1 :: int]. 1 \<le> row \<and> row \<le> 12" by simp
  from find_rows_white [OF col this, of front "[]"] have r1:
    "find_rows upright front False col [1 .. 13 - 1] (\<lparr>img = white, delta_x = 0, delta_y = 0\<rparr>, [])
       = Inr (\<lparr>img = white, delta_x = 0, delta_y = 0\<rparr>, replicate 12 0)"
    by simp
  have "find_cols upright front False (col # cols) (\<lparr>img = white, delta_x = 0, delta_y = 0\<rparr>, hs)
      = find_cols upright front False cols
          (\<lparr>img = white, delta_x = 0, delta_y = 0\<rparr>, hs @ [replicate 12 0])"
    by (simp only: find_cols.simps fst_conv snd_conv r1 sum.case prod.case)
  also have "\<dots> = Inr (\<lparr>img = white, delta_x = 0, delta_y = 0\<rparr>,
      (hs @ [replicate 12 0]) @ replicate (length cols) (replicate 12 0))"
    by (rule Cons.IH [OF rest])
  finally show ?case by simp
qed

lemma find_holes_white:
  "find_holes upright front False white
     = Inr (\<lparr>img = white, delta_x = 0, delta_y = 0\<rparr>, replicate 80 (replicate 12 0))"
proof -
  have "\<forall>col \<in> set [1 .. 81 - 1 :: int]. 1 \<le> col \<and> col \<le> 80" by simp
  from find_cols_white [OF this, of front "[]"] show ?thesis
    by (simp add: find_holes_def)
qed


text \<open>Two cells of column 1 on the striped image: row 11 lies on white, row 12 on black.\<close>

lemma hole_coord_flat:
  "hole_coord flat col row
     = (295 + (of_int row - 6.5) * 37.5, 68 - (0.25 + 0.087 * of_int (col - 1)) * 150)"
  by (simp add: hole_coord_def flat_def center_x_def py_int_def DPI_def Let_def)

lemma find_cell_eval:
  assumes "hole_coord g col row = (xr, yr)"
    and "is_hole debug (img s) (py_int (xr + delta_x s)) (py_int (yr + delta_y s))
           = Inr (im', hole, w, dx, dy)"
  shows "find_cell g front debug col row (s, r)
       = Inr (\<lparr>img = im',
               delta_x = (if hole \<noteq> 0 then delta_x s + of_int dx * FINE_TUNE else delta_x s),
               delta_y = (if hole \<noteq> 0 then delta_y s + of_int dy * FINE_TUNE else delta_y s)\<rparr>,
              if front then r @ [hole] else hole # r)"
  using assms by (simp add: find_cell_def Let_def)

lemma offsets_range:
  "(dx, dy) \<in> set offsets \<Longrightarrow> - 1 \<le> dx \<and> dx \<le> 1 \<and> - 2 \<le> dy \<and> dy \<le> 2"
  by (auto simp: offsets_enum)

lemma strip_search_11: "is_hole_search strip 463 30 = (23205, (- 1, - 2))"
proof (rule is_hole_search_uniform)
  fix dx dy :: int
  assume "(dx, dy) \<in> set offsets"
  then have o: "- 1 \<le> dx \<and> dx \<le> 1 \<and> - 2 \<le> dy \<and> dy \<le> 2" by (rule offsets_range)
  have "ww strip 463 30 dx dy = 91 * int 255"
    using o by (intro ww_uniform) (auto simp: strip_def sample_def)
  then show "ww strip 463 30 dx dy = 23205" by simp
qed simp

lemma strip_search_12: "is_hole_search strip 501 30 = (0, (- 1, - 2))"
proof (rule is_hole_search_uniform)
  fix dx dy :: int
  assume "(dx, dy) \<in> set offsets"
  then have o: "- 1 \<le> dx \<and> dx \<le> 1 \<and> - 2 \<le> dy \<and> dy \<le> 2" by (rule offsets_range)
  have "ww strip 501 30 dx dy = 91 * int 0"
    using o by (intro ww_uniform) (auto simp: strip_def sample_def)
  then show "ww strip 501 30 dx dy = 0" by simp
qed simp

lemma strip_threshold: "threshold strip = 4550"
  by (simp add: threshold_value strip_def)

lemma strip_cell_11:
  "find_cell flat front False 1 11 (\<lparr>img = strip, delta_x = 0, delta_y = 0\<rparr>, r)
     = Inr (\<lparr>img = strip, delta_x = 0, delta_y = 0\<rparr>, if front then r @ [0] else 0 # r)"
proof -
  have "is_hole False strip 463 30 = Inr (strip, 0, 0, 0, 0)"
    by (simp add: is_hole_def strip_search_11 strip_threshold)
  then have "is_hole False (img \<lparr>img = strip, delta_x = 0, delta_y = 0\<rparr>)
       (py_int (295 + (of_int 11 - 6.5) * 37.5 + delta_x \<lparr>img = strip, delta_x = 0, delta_y = 0\<rparr>))
       (py_int (68 - (0.25 + 0.087 * of_int (1 - 1)) * 150 + delta_y \<lparr>img = strip, delta_x = 0, delta_y = 0\<rparr>))
     = Inr (strip, 0, 0, 0, 0)"
    by (simp add: py_int_def)
  from find_cell_eval [OF hole_coord_flat this] show ?thesis by simp
qed

lemma strip_cell_12:
  "\<exists>im'. find_cell flat front False 1 12 (\<lparr>img = strip, delta_x = 0, delta_y = 0\<rparr>, r)
     = Inr (\<lparr>img = im', delta_x = - (1 / 20), delta_y = - (1 / 10)\<rparr>,
            if front then r @ [1] else 1 # r)"
proof -
  have "\<exists>res. is_hole False strip 501 30 = Inr res"
    by (rule is_hole_returns) (simp_all add: strip_def)
  then obtain im' hole w dx dy where ih: "is_hole False strip 501 30 = Inr (im', hole, w, dx, dy)"
    by (metis prod_cases5)
  from is_hole_result [OF ih] have v: "hole = 1" "dx = - 1" "dy = - 2"
    by (simp_all add: strip_search_12 strip_threshold)
  from ih have "is_hole False (img \<lparr>img = strip, delta_x = 0, delta_y = 0\<rparr>)
       (py_int (295 + (of_int 12 - 6.5) * 37.5 + delta_x \<lparr>img = strip, delta_x = 0, delta_y = 0\<rparr>))
       (py_int (68 - (0.25 + 0.087 * of_int (1 - 1)) * 150 + delta_y \<lparr>img = strip, delta_x = 0, delta_y = 0\<rparr>))
     = Inr (im', hole, w, dx, dy)"
    by (simp add: py_int_def)
  from find_cell_eval [OF hole_coord_flat this] v show ?thesis
    by (simp add: FINE_TUNE_def)
qed

lemma strip_rows_front:
  "\<exists>im'. find_rows flat True False 1 [11, 12] (\<lparr>img = strip, delta_x = 0, delta_y = 0\<rparr>, [])
     = Inr (\<lparr>img = im', delta_x = - (1 / 20), delta_y = - (1 / 10)\<rparr>, [0, 1])"
  using strip_cell_12 [of True "[0]"] by (auto simp: strip_cell_11)

theorem back_face_reverses_column_witness:
  "\<exists>s1. find_rows flat True False 1 [11, 12] (\<lparr>img = strip, delta_x = 0, delta_y = 0\<rparr>, [])
           = Inr (s1, [0, 1])
       \<and> detections flat False 1 [11, 12] \<lparr>img = strip, delta_x = 0, delta_y = 0\<rparr> = Inr (s1, [0, 1])
       \<and> find_rows flat False False 1 [11, 12] (\<lparr>img = strip, delta_x = 0, delta_y = 0\<rparr>, [])
           = Inr (s1, [1, 0])"
proof -
  from strip_rows_front obtain s1 where
    f: "find_rows flat True False 1 [11, 12] (\<lparr>img = strip, delta_x = 0, delta_y = 0\<rparr>, [])
          = Inr (s1, [0, 1])"
    by blast
  from back_face_reverses_column [of flat False 1 "[11, 12]" "\<lparr>img = strip, delta_x = 0, delta_y = 0\<rparr>"] f
  show ?thesis by (intro exI [of _ s1]) simp
qed




section \<open>The edge searches\<close>

lemma fold_first_max:
  fixes f :: "'a \<Rightarrow> int"
  assumes "fold (\<lambda>p (w, off). if f p > w then (f p, p) else (w, off)) ps (w0, o0) = (w, off)"
  shows "(\<forall>j<length ps. f (ps ! j) \<le> w)
       \<and> ((w = w0 \<and> off = o0)
          \<or> (w0 < w \<and> (\<exists>i<length ps. off = ps ! i \<and> w = f (ps ! i) \<and> (\<forall>j<i. f (ps ! j) < w))))"
  using assms
proof (induction ps arbitrary: w off rule: rev_induct)
  case Nil
  then show ?case by simp
next
  case (snoc p ps)
  obtain w1 o1 where mid:
    "fold (\<lambda>p (w, off). if f p > w then (f p, p) else (w, off)) ps (w0, o0) = (w1, o1)"
    by (cases "fold (\<lambda>p (w, off). if f p > w then (f p, p) else (w, off)) ps (w0, o0)")
  note ih = snoc.IH [OF mid]
  from snoc.prems mid have last: "(if f p > w1 then (f p, p) else (w1, o1)) = (w, off)"
    by simp
  show ?case
  proof (cases "f p > w1")
    case True
    with last have eq: "w = f p" "off = p" by auto
    have below: "\<forall>j<length ps. f (ps ! j) < w"
      using ih True eq by fastforce
    have gt0: "w0 < w" using ih True eq by auto
    have "\<forall>j<length (ps @ [p]). f ((ps @ [p]) ! j) \<le> w"
      using below eq by (auto simp: nth_append less_Suc_eq)
    moreover have "\<exists>i<length (ps @ [p]). off = (ps @ [p]) ! i \<and> w = f ((ps @ [p]) ! i)
        \<and> (\<forall>j<i. f ((ps @ [p]) ! j) < w)"
      using below eq by (intro exI [of _ "length ps"]) (simp add: nth_append)
    ultimately show ?thesis using gt0 by blast
  next
    case False
    with last have eq: "w = w1" "off = o1" by auto
    have a: "\<forall>j<length (ps @ [p]). f ((ps @ [p]) ! j) \<le> w"
      using ih False eq by (auto simp: nth_append less_Suc_eq)
    from ih have "(w1 = w0 \<and> o1 = o0)
        \<or> (w0 < w1 \<and> (\<exists>i<length ps. o1 = ps ! i \<and> w1 = f (ps ! i) \<and> (\<forall>j<i. f (ps ! j) < w1)))"
      by blast
    then show ?thesis
    proof
      assume "w1 = w0 \<and> o1 = o0"
      with a eq show ?thesis by simp
    next
      assume "w0 < w1 \<and> (\<exists>i<length ps. o1 = ps ! i \<and> w1 = f (ps ! i) \<and> (\<forall>j<i. f (ps ! j) < w1))"
      then obtain i where i: "w0 < w1" "i < length ps" "o1 = ps ! i" "w1 = f (ps ! i)"
          "\<forall>j<i. f (ps ! j) < w1"
        by blast
      have "\<exists>i<length (ps @ [p]). off = (ps @ [p]) ! i \<and> w = f ((ps @ [p]) ! i)
          \<and> (\<forall>j<i. f ((ps @ [p]) ! j) < w)"
        using i eq by (intro exI [of _ i]) (simp add: nth_append)
      with a i eq show ?thesis by blast
    qed
  qed
qed

lemma left_scan_fold:
  "left_scan im r c =
     fold (\<lambda>x (pk, xl). if inside_minus_outside_left im r x > pk
                           then (inside_minus_outside_left im r x, x) else (pk, xl))
       [c - EDGE_WIN .. c + EDGE_WIN - 1] (0, 0)"
  unfolding left_scan_def inside_minus_outside_left_def Let_def ..

lemma right_scan_fold:
  "right_scan im r c =
     fold (\<lambda>x (pk, xr). if inside_minus_outside_right im r x > pk
                           then (inside_minus_outside_right im r x, x) else (pk, xr))
       [c - EDGE_WIN .. c + EDGE_WIN - 1] (0, 0)"
  unfolding right_scan_def inside_minus_outside_right_def Let_def ..


lemma fold_no_max_snd:
  fixes g :: "'a \<Rightarrow> int"
  assumes "\<forall>p \<in> set ps. g p \<le> v0"
  shows "fold (\<lambda>p (b, v). if g p > v then (p, g p) else (b, v)) ps (b0, v0) = (b0, v0)"
  using assms by (induction ps) auto



lemma front_scan_none:
  assumes "\<forall>y \<in> set (py_range_down (int (ymax im) - 20) (int (ymax im) - 200)).
             front_contrast l r im y \<le> 0"
  shows "front_scan l r im = (int (ymax im), 0)"
  unfolding front_scan_def using assms by (rule fold_no_max_snd)

lemma sample_rows_valid:
  assumes "y \<in> set (py_range 100 (int h - 200) 100)"
  shows "py_index h y = Inr (nat y)"
proof -
  from assms obtain k where k: "k < nat ((int h - 200 - 100 + 100 - 1) div 100)"
    and y: "y = 100 + 100 * int k"
    by (auto simp: py_range_def)
  from k have "int k < (int h - 201) div 100" by simp
  then have "100 * int k < int h - 300" by linarith
  with y have "0 \<le> y \<and> y < int h" by simp
  then show ?thesis by (simp add: py_index_def)
qed

lemma skew_row_total:
  assumes "y \<in> set (py_range 100 (int (ymax im) - 200) 100)"
  shows "\<exists>s'. skew_row im y s = Inr s'"
  using sample_rows_valid [OF assms]
  by (simp add: skew_row_def left_edge_def right_edge_def)

lemma skew_rows_total:
  assumes "set rows \<subseteq> set (py_range 100 (int (ymax im) - 200) 100)"
  shows "\<exists>s'. skew_rows im rows s = Inr s'"
  using assms
proof (induction rows arbitrary: s)
  case Nil
  then show ?case by simp
next
  case (Cons y rows)
  then obtain s1 where "skew_row im y s = Inr s1"
    using skew_row_total [of y im s] by auto
  with Cons show ?case by simp
qed

lemma skew_samples_total: "\<exists>s. skew_samples im = Inr s"
  unfolding skew_samples_def by (rule skew_rows_total) simp

lemma skew_row_keeps_cr:
  assumes "skew_row im y s = Inr s'"
  shows "cr s' = cr s"
  using assms by (auto simp: skew_row_def py_int_def split: sum.splits)

lemmas edge_eval = row_sum_def slice_def slice_index_def sample_def EDGE_WIN_def Let_def

lemma band_left: "left_scan band 100 50 = (2550, 58)"
  by (simp add: left_scan_def edge_eval band_def)

lemma band_right: "right_scan band 100 80 = (2550, 72)"
  by (simp add: right_scan_def edge_eval band_def)

text \<open>
  Claim C5. The search-centre of the left edge is low-pass filtered towards the position
  found, but the right one is not: the assignment to \<open>cr\<close> adds \<open>(cr - cr) * .125\<close>, so
  the right centre keeps its first value for the whole walk. On the banded image the
  right edge is found at 72, eight columns from the centre 80, and the centre stays 80,
  while the left centre moves from 50 to 51 towards the 58 found.
\<close>

theorem right_centre_never_moves:
  "skew_samples band
     = Inr \<lparr>ys = [100], left = [58], right = [72], cl = 51, cr = 80\<rparr>"
proof -
  have r: "py_range 100 (int (ymax band) - 200) 100 = [100]"
    by (simp add: py_range_def band_def)
  have i: "py_index (ymax band) 100 = Inr 100"
    by (simp add: py_index_def band_def)
  have x: "xmax band = 130" by (simp add: band_def)
  show ?thesis
    by (simp add: skew_samples_def r skew_row_def left_edge_def right_edge_def i x
        band_left band_right EXPECT_LEFT_EDGE_def EXPECT_RIGHT_EDGE_def py_int_def)
qed

text \<open>
  Claim C6, as the specification states it, fails: on the banded image the left edge is
  put at column 58, where outside minus inside is the least of all candidates.
\<close>

theorem edge_contrast_counterexample:
  "left_edge band 100 50 = Inr 58
   \<and> 40 \<in> set [50 - EDGE_WIN .. 50 + EDGE_WIN - 1]
   \<and> outside_minus_inside_left band 100 58 = - 2550
   \<and> outside_minus_inside_left band 100 40 = 0
   \<and> outside_minus_inside_left band 100 58 < outside_minus_inside_left band 100 40"
proof -
  have i: "py_index (ymax band) 100 = Inr 100"
    by (simp add: py_index_def band_def)
  have "left_edge band 100 50 = Inr 58"
    by (simp add: left_edge_def i band_left)
  moreover have "outside_minus_inside_left band 100 58 = - 2550"
    "outside_minus_inside_left band 100 40 = 0"
    by (simp_all add: outside_minus_inside_left_def edge_eval band_def)
  ultimately show ?thesis by (simp add: EDGE_WIN_def)
qed

text \<open>
  Claim C6, amended. On a sampled row, when some candidate has a positive score, the
  position selected for an edge is the first candidate that maximises the sum of the
  \<open>EDGE_WIN\<close> pixels immediately inside the card minus the sum of the \<open>EDGE_WIN\<close> pixels
  immediately outside it, the two sides mirrored between the left and the right edge:
  the card is the bright side and the background the dark one.
\<close>

theorem edge_maximises_inside_minus_outside:
  "(py_index (ymax im) y = Inr r
      \<and> (\<exists>x \<in> set [c - EDGE_WIN .. c + EDGE_WIN - 1]. 0 < inside_minus_outside_left im r x)
     \<longrightarrow> (\<exists>i<length [c - EDGE_WIN .. c + EDGE_WIN - 1].
            left_edge im y c = Inr ([c - EDGE_WIN .. c + EDGE_WIN - 1] ! i)
          \<and> (\<forall>j<length [c - EDGE_WIN .. c + EDGE_WIN - 1].
                inside_minus_outside_left im r ([c - EDGE_WIN .. c + EDGE_WIN - 1] ! j)
                  \<le> inside_minus_outside_left im r ([c - EDGE_WIN .. c + EDGE_WIN - 1] ! i))
          \<and> (\<forall>j<i. inside_minus_outside_left im r ([c - EDGE_WIN .. c + EDGE_WIN - 1] ! j)
                  < inside_minus_outside_left im r ([c - EDGE_WIN .. c + EDGE_WIN - 1] ! i))))
   \<and> (py_index (ymax im) y = Inr r
      \<and> (\<exists>x \<in> set [c - EDGE_WIN .. c + EDGE_WIN - 1]. 0 < inside_minus_outside_right im r x)
     \<longrightarrow> (\<exists>i<length [c - EDGE_WIN .. c + EDGE_WIN - 1].
            right_edge im y c = Inr ([c - EDGE_WIN .. c + EDGE_WIN - 1] ! i)
          \<and> (\<forall>j<length [c - EDGE_WIN .. c + EDGE_WIN - 1].
                inside_minus_outside_right im r ([c - EDGE_WIN .. c + EDGE_WIN - 1] ! j)
                  \<le> inside_minus_outside_right im r ([c - EDGE_WIN .. c + EDGE_WIN - 1] ! i))
          \<and> (\<forall>j<i. inside_minus_outside_right im r ([c - EDGE_WIN .. c + EDGE_WIN - 1] ! j)
                  < inside_minus_outside_right im r ([c - EDGE_WIN .. c + EDGE_WIN - 1] ! i))))"
proof -
  let ?cs = "[c - EDGE_WIN .. c + EDGE_WIN - 1]"
  have pick: "\<exists>i<length ?cs. snd (fold (\<lambda>x (pk, xb). if f x > pk then (f x, x) else (pk, xb)) ?cs (0, 0)) = ?cs ! i
        \<and> (\<forall>j<length ?cs. f (?cs ! j) \<le> f (?cs ! i))
        \<and> (\<forall>j<i. f (?cs ! j) < f (?cs ! i))"
    if pos: "\<exists>x \<in> set ?cs. 0 < f x" for f :: "int \<Rightarrow> int"
  proof -
    obtain w xb where wx: "fold (\<lambda>x (pk, xb). if f x > pk then (f x, x) else (pk, xb)) ?cs (0, 0) = (w, xb)"
      by (cases "fold (\<lambda>x (pk, xb). if f x > pk then (f x, x) else (pk, xb)) ?cs (0, 0)")
    from fold_first_max [OF wx] have
      all: "\<forall>j<length ?cs. f (?cs ! j) \<le> w"
      and alt: "(w = 0 \<and> xb = 0)
         \<or> (0 < w \<and> (\<exists>i<length ?cs. xb = ?cs ! i \<and> w = f (?cs ! i) \<and> (\<forall>j<i. f (?cs ! j) < w)))"
      by blast+
    from pos obtain x where "x \<in> set ?cs" "0 < f x" by blast
    then obtain j where "j < length ?cs" "?cs ! j = x" by (metis in_set_conv_nth)
    with all \<open>0 < f x\<close> have "0 < w" by fastforce
    with alt obtain i where "i < length ?cs" "xb = ?cs ! i" "w = f (?cs ! i)" "\<forall>j<i. f (?cs ! j) < w"
      by auto
    with all wx show ?thesis by (intro exI [of _ i]) simp
  qed
  show ?thesis
    using pick [of "inside_minus_outside_left im r"] pick [of "inside_minus_outside_right im r"]
    by (simp add: left_edge_def right_edge_def left_scan_fold right_scan_fold)
qed

theorem edge_maximises_inside_minus_outside_witness:
  "py_index (ymax band) 100 = Inr 100
   \<and> 0 < inside_minus_outside_left band 100 58 \<and> 0 < inside_minus_outside_right band 100 72
   \<and> left_edge band 100 50 = Inr 58 \<and> right_edge band 100 80 = Inr 72
   \<and> (\<exists>i<length [50 - EDGE_WIN .. 50 + EDGE_WIN - 1].
        58 = [50 - EDGE_WIN .. 50 + EDGE_WIN - 1] ! i
        \<and> (\<forall>j<i. inside_minus_outside_left band 100 ([50 - EDGE_WIN .. 50 + EDGE_WIN - 1] ! j)
               < inside_minus_outside_left band 100 58))
   \<and> (\<exists>i<length [80 - EDGE_WIN .. 80 + EDGE_WIN - 1].
        72 = [80 - EDGE_WIN .. 80 + EDGE_WIN - 1] ! i
        \<and> (\<forall>j<i. inside_minus_outside_right band 100 ([80 - EDGE_WIN .. 80 + EDGE_WIN - 1] ! j)
               < inside_minus_outside_right band 100 72))"
proof -
  have i: "py_index (ymax band) 100 = Inr 100"
    by (simp add: py_index_def band_def)
  have l: "inside_minus_outside_left band 100 58 = 2550"
    and r: "inside_minus_outside_right band 100 72 = 2550"
    by (simp_all add: inside_minus_outside_left_def inside_minus_outside_right_def edge_eval band_def)
  have le: "left_edge band 100 50 = Inr 58" by (simp add: left_edge_def i band_left)
  have re: "right_edge band 100 80 = Inr 72" by (simp add: right_edge_def i band_right)
  have ml: "58 \<in> set [50 - EDGE_WIN .. 50 + EDGE_WIN - 1]"
    and mr: "72 \<in> set [80 - EDGE_WIN .. 80 + EDGE_WIN - 1]"
    by (simp_all add: EDGE_WIN_def)
  have pl: "\<exists>x \<in> set [50 - EDGE_WIN .. 50 + EDGE_WIN - 1]. 0 < inside_minus_outside_left band 100 x"
    using ml l by (intro bexI [of _ 58]) simp_all
  have pr: "\<exists>x \<in> set [80 - EDGE_WIN .. 80 + EDGE_WIN - 1]. 0 < inside_minus_outside_right band 100 x"
    using mr r by (intro bexI [of _ 72]) simp_all
  from edge_maximises_inside_minus_outside [of band 100 100 50, THEN conjunct1, THEN mp, OF conjI [OF i pl]]
  obtain k where k: "k < length [50 - EDGE_WIN .. 50 + EDGE_WIN - 1]"
    "left_edge band 100 50 = Inr ([50 - EDGE_WIN .. 50 + EDGE_WIN - 1] ! k)"
    "\<forall>j<k. inside_minus_outside_left band 100 ([50 - EDGE_WIN .. 50 + EDGE_WIN - 1] ! j)
        < inside_minus_outside_left band 100 ([50 - EDGE_WIN .. 50 + EDGE_WIN - 1] ! k)"
    by blast
  from k(2) [unfolded le] have ek: "58 = [50 - EDGE_WIN .. 50 + EDGE_WIN - 1] ! k"
    by (rule Inr_inject)
  have "\<forall>j<k. inside_minus_outside_left band 100 ([50 - EDGE_WIN .. 50 + EDGE_WIN - 1] ! j)
        < inside_minus_outside_left band 100 58"
    using k(3) unfolding ek [symmetric] .
  with k(1) ek have a: "\<exists>i<length [50 - EDGE_WIN .. 50 + EDGE_WIN - 1].
        58 = [50 - EDGE_WIN .. 50 + EDGE_WIN - 1] ! i
        \<and> (\<forall>j<i. inside_minus_outside_left band 100 ([50 - EDGE_WIN .. 50 + EDGE_WIN - 1] ! j)
               < inside_minus_outside_left band 100 58)"
    by blast
  from edge_maximises_inside_minus_outside [of band 100 100 80, THEN conjunct2, THEN mp, OF conjI [OF i pr]]
  obtain m where m: "m < length [80 - EDGE_WIN .. 80 + EDGE_WIN - 1]"
    "right_edge band 100 80 = Inr ([80 - EDGE_WIN .. 80 + EDGE_WIN - 1] ! m)"
    "\<forall>j<m. inside_minus_outside_right band 100 ([80 - EDGE_WIN .. 80 + EDGE_WIN - 1] ! j)
        < inside_minus_outside_right band 100 ([80 - EDGE_WIN .. 80 + EDGE_WIN - 1] ! m)"
    by blast
  from m(2) [unfolded re] have em: "72 = [80 - EDGE_WIN .. 80 + EDGE_WIN - 1] ! m"
    by (rule Inr_inject)
  have "\<forall>j<m. inside_minus_outside_right band 100 ([80 - EDGE_WIN .. 80 + EDGE_WIN - 1] ! j)
        < inside_minus_outside_right band 100 72"
    using m(3) unfolding em [symmetric] .
  with m(1) em have b: "\<exists>i<length [80 - EDGE_WIN .. 80 + EDGE_WIN - 1].
        72 = [80 - EDGE_WIN .. 80 + EDGE_WIN - 1] ! i
        \<and> (\<forall>j<i. inside_minus_outside_right band 100 ([80 - EDGE_WIN .. 80 + EDGE_WIN - 1] ! j)
               < inside_minus_outside_right band 100 72)"
    by blast
  have pos: "0 < inside_minus_outside_left band 100 58" "0 < inside_minus_outside_right band 100 72"
    by (simp_all add: l r)
  from i pos le re a b show ?thesis by (intro conjI)
qed

lemma py_range_down_bounds:
  assumes "y \<in> set (py_range_down a b)"
  shows "b < y \<and> y \<le> a"
  using assms by (auto simp: py_range_down_def)

lemma center_x_middle: "center_x middle middle y = 295"
  by (simp add: center_x_def middle_def py_int_def)

lemma white_front_contrast:
  assumes "y \<in> set (py_range_down (int (ymax white) - 20) (int (ymax white) - 200))"
  shows "front_contrast middle middle white y = 0"
proof -
  from py_range_down_bounds [OF assms] have y: "981 < y" "y \<le> 1161"
    by (simp_all add: white_def)
  have s: "\<And>r c. sample white r c = 255" by (simp add: white_def sample_def)
  have a: "window_sum white (y - 10) y 285 305
      = int ((nat y - nat (y - 10)) * ((nat 305 - nat 285) * 255))"
    using y by (intro window_sum_uniform) (simp_all add: s, simp_all add: white_def)
  have b: "window_sum white y (y + 10) 285 305
      = int ((nat (y + 10) - nat y) * ((nat 305 - nat 285) * 255))"
    using y by (intro window_sum_uniform) (simp_all add: s, simp_all add: white_def)
  have "nat y - nat (y - 10) = 10" "nat (y + 10) - nat y = 10" using y by simp_all
  with a b show ?thesis
    by (simp add: front_contrast_def center_x_middle EDGE_WIN_def Let_def)
qed




section \<open>Writes to the image\<close>

lemma measure_skew_no_debug:
  "measure_skew lin False im0 = Inr (l, r, im1) \<Longrightarrow> im1 = im0"
  by (auto simp: measure_skew_def split: sum.splits)

lemma find_front_edge_no_debug:
  "find_front_edge l r False im0 = Inr (yb, im1) \<Longrightarrow> im1 = im0"
  by (simp add: find_front_edge_def Let_def)

lemma find_cell_no_debug:
  assumes "find_cell g front False col row (s, r) = Inr (s', r')" and "punched r' = punched r"
  shows "img s' = img s"
proof -
  from find_cell_step [OF assms(1)] obtain im' hole w dx dy where
    ih: "is_hole False (img s) (py_int (fst (hole_coord g col row) + delta_x s))
           (py_int (snd (hole_coord g col row) + delta_y s)) = Inr (im', hole, w, dx, dy)"
    and i: "img s' = im'"
    and r': "r' = (if front then r @ [hole] else hole # r)"
    by blast
  from r' assms(2) have "hole = 0"
    by (auto simp: punched_append punched_Cons split: if_splits)
  with is_hole_result [OF ih] i show ?thesis by auto
qed

lemma find_cell_punched_mono:
  assumes "find_cell g front debug col row (s, r) = Inr (s', r')"
  shows "punched r \<le> punched r'"
  using find_cell_drift [OF assms] by auto

lemma find_rows_punched_mono:
  assumes "find_rows g front debug col rows (s, r) = Inr (s', r')"
  shows "punched r \<le> punched r'"
  using find_rows_drift [OF assms] by auto

lemma find_rows_no_debug:
  assumes "find_rows g front False col rows (s, r) = Inr (s', r')" and "punched r' = punched r"
  shows "img s' = img s"
  using assms
proof (induction rows arbitrary: s r)
  case Nil
  then show ?case by simp
next
  case (Cons row rows)
  from Cons.prems(1) obtain s1 r1 where
    c: "find_cell g front False col row (s, r) = Inr (s1, r1)"
    and rest: "find_rows g front False col rows (s1, r1) = Inr (s', r')"
    by (cases "find_cell g front False col row (s, r)") auto
  from find_cell_punched_mono [OF c] find_rows_punched_mono [OF rest] Cons.prems(2)
  have p: "punched r1 = punched r" "punched r' = punched r1" by simp_all
  from find_cell_no_debug [OF c p(1)] Cons.IH [OF rest p(2)] show ?case by simp
qed

lemma find_cols_punched_mono:
  assumes "find_cols g front debug cols (s, hs) = Inr (s', hs')"
  shows "punched (concat hs) \<le> punched (concat hs')"
  using find_cols_drift [OF assms] by auto

lemma find_cols_no_debug:
  assumes "find_cols g front False cols (s, hs) = Inr (s', hs')"
    and "punched (concat hs') = punched (concat hs)"
  shows "img s' = img s"
  using assms
proof (induction cols arbitrary: s hs)
  case Nil
  then show ?case by simp
next
  case (Cons col cols)
  from Cons.prems(1) obtain s1 r1 where
    c: "find_rows g front False col [1 .. 13 - 1] (s, []) = Inr (s1, r1)"
    and rest: "find_cols g front False cols (s1, hs @ [r1]) = Inr (s', hs')"
    by (cases "find_rows g front False col [1 .. 13 - 1] (s, [])") auto
  from find_cols_punched_mono [OF rest] Cons.prems(2)
  have p: "punched r1 = punched []" "punched (concat hs') = punched (concat (hs @ [r1]))"
    by (simp_all add: punched_concat_append punched_def)
  from find_rows_no_debug [OF c p(1)] Cons.IH [OF rest p(2)] show ?case by simp
qed

lemma no_debug_no_hole_no_write:
  assumes "PunchedCard lin im0 front False = Inr c" and "punched (concat (holes c)) = 0"
  shows "final_im c = im0"
proof -
  from assms(1) obtain l r im1 yb im2 s hs where
    m: "measure_skew lin False im0 = Inr (l, r, im1)"
    and f: "find_front_edge l r False im1 = Inr (yb, im2)"
    and h: "find_holes \<lparr>lrl = l, lrr = r, y_front = yb\<rparr> front False im2 = Inr (s, hs)"
    and c: "c = \<lparr>final_im = img s, holes = hs, values = card_values hs\<rparr>"
    by (auto simp: PunchedCard_def split: sum.splits)
  from h have "find_cols \<lparr>lrl = l, lrr = r, y_front = yb\<rparr> front False [1 .. 81 - 1]
      (\<lparr>img = im2, delta_x = 0, delta_y = 0\<rparr>, []) = Inr (s, hs)"
    by (simp add: find_holes_def)
  from find_cols_no_debug [OF this] assms(2) c have "img s = im2"
    by (simp add: punched_def)
  with measure_skew_no_debug [OF m] find_front_edge_no_debug [OF f] c show ?thesis by simp
qed

text \<open>
  Claim C3. With no debug output configured the edge estimation and the front-edge
  location leave the image as it is, and so does a cell classified unpunched; but
  \<^verbatim>\<open>is_hole\<close> draws the white outline of every hole it finds whether debugging is on or
  not. On the 20 by 30 image with one darker sample, the cell at \<open>(12, 10)\<close> is classified
  punched with debugging off, and the sample in row 6 and column 12 is 255 afterwards
  where it was 50.
\<close>

theorem is_hole_draws_without_debug:
  "map_sum id (\<lambda>(im', hole, w, dx, dy). (hole, pix im' 6 12 0)) (is_hole False grey49 12 10)
     = Inr (1, 255)
   \<and> pix grey49 6 12 0 = 50"
  by code_simp

section \<open>The card\<close>

lemma find_cell_length:
  assumes "find_cell g front debug col row (s, r) = Inr (s', r')"
  shows "length r' = Suc (length r)"
  using find_cell_step [OF assms] by auto

lemma find_rows_length:
  assumes "find_rows g front debug col rows (s, r) = Inr (s', r')"
  shows "length r' = length r + length rows"
  using assms
proof (induction rows arbitrary: s r)
  case Nil
  then show ?case by simp
next
  case (Cons row rows)
  from Cons.prems obtain s1 r1 where
    c: "find_cell g front debug col row (s, r) = Inr (s1, r1)"
    and rest: "find_rows g front debug col rows (s1, r1) = Inr (s', r')"
    by (cases "find_cell g front debug col row (s, r)") auto
  from find_cell_length [OF c] Cons.IH [OF rest] show ?case by simp
qed

lemma find_cols_shape:
  assumes "find_cols g front debug cols (s, hs) = Inr (s', hs')"
    and "\<forall>h \<in> set hs. length h = 12"
  shows "length hs' = length hs + length cols \<and> (\<forall>h \<in> set hs'. length h = 12)"
  using assms
proof (induction cols arbitrary: s hs)
  case Nil
  then show ?case by simp
next
  case (Cons col cols)
  from Cons.prems(1) obtain s1 r1 where
    c: "find_rows g front debug col [1 .. 13 - 1] (s, []) = Inr (s1, r1)"
    and rest: "find_cols g front debug cols (s1, hs @ [r1]) = Inr (s', hs')"
    by (cases "find_rows g front debug col [1 .. 13 - 1] (s, [])") auto
  from find_rows_length [OF c] have "length r1 = 12" by simp
  with Cons.prems(2) have "\<forall>h \<in> set (hs @ [r1]). length h = 12" by simp
  from Cons.IH [OF rest this] show ?case by simp
qed

lemma find_holes_shape:
  assumes "find_holes g front debug im0 = Inr (s', hs)"
  shows "length hs = 80 \<and> (\<forall>h \<in> set hs. length h = 12)"
proof -
  from assms have "find_cols g front debug [1 .. 81 - 1]
      (\<lparr>img = im0, delta_x = 0, delta_y = 0\<rparr>, []) = Inr (s', hs)"
    by (simp add: find_holes_def)
  from find_cols_shape [OF this] show ?thesis by simp
qed

lemma column_value_rows:
  assumes "length r = 12"
  shows "column_value r = (\<Sum>row\<leftarrow>[1..<13]. r ! (row - 1) * 2 ^ (12 - row))"
proof -
  have "column_value r = (\<Sum>i\<leftarrow>[0..<12]. r ! i * 2 ^ (11 - i))"
    by (simp add: column_value_weights assms del: upt_Suc)
  also have "\<dots> = (\<Sum>row\<leftarrow>[1..<13]. r ! (row - 1) * 2 ^ (12 - row))"
    by (simp add: upt_conv_Cons del: upt_Suc)
  finally show ?thesis .
qed

lemma white_front_edge: "find_front_edge middle middle False white = Inr (1181, white)"
proof -
  have "\<forall>y \<in> set (py_range_down (int (ymax white) - 20) (int (ymax white) - 200)).
          front_contrast middle middle white y \<le> 0"
    by (simp add: white_front_contrast)
  then have "front_scan middle middle white = (int (ymax white), 0)" by (rule front_scan_none)
  then show ?thesis by (simp add: find_front_edge_def front_edge_def white_def)
qed

lemma white_card:
  "PunchedCard (\<lambda>a b. Inr middle) white front False
     = Inr \<lparr>final_im = white, holes = replicate 80 (replicate 12 0),
            values = card_values (replicate 80 (replicate 12 0))\<rparr>"
proof -
  obtain s where "skew_samples white = Inr s" using skew_samples_total by blast
  then have m: "measure_skew (\<lambda>a b. Inr middle) False white = Inr (middle, middle, white)"
    by (simp add: measure_skew_def)
  have h: "find_holes \<lparr>lrl = middle, lrr = middle, y_front = 1181\<rparr> front False white
      = Inr (\<lparr>img = white, delta_x = 0, delta_y = 0\<rparr>, replicate 80 (replicate 12 0))"
    using find_holes_white [of front] by (simp add: upright_def)
  show ?thesis by (simp add: PunchedCard_def m white_front_edge h)
qed

text \<open>
  Claim C2. After a completed scan there are 80 column values, and the value of column
  \<open>col\<close> is the sum over the rows 1..12 of the stored hole flag times \<open>2 ^ (12 - row)\<close>:
  row 1 has weight \<open>2 ^ 11\<close> and row 12 weight \<open>2 ^ 0\<close>. The same holds of the value of
  any list of twelve flags.
\<close>

theorem column_value_bits:
  "(PunchedCard lin im0 front debug = Inr c \<and> 1 \<le> col \<and> col \<le> 80 \<longrightarrow>
       length (values c) = 80 \<and> length (holes c) = 80 \<and> length (holes c ! (col - 1)) = 12
     \<and> values c ! (col - 1)
         = (\<Sum>row\<leftarrow>[1..<13]. holes c ! (col - 1) ! (row - 1) * 2 ^ (12 - row)))
   \<and> (length r = 12 \<longrightarrow>
       column_value r = (\<Sum>row\<leftarrow>[1..<13]. r ! (row - 1) * 2 ^ (12 - row)))"
proof (intro conjI impI)
  assume a: "PunchedCard lin im0 front debug = Inr c \<and> 1 \<le> col \<and> col \<le> 80"
  then obtain g s hs im2 where
    h: "find_holes g front debug im2 = Inr (s, hs)"
    and c: "c = \<lparr>final_im = img s, holes = hs, values = card_values hs\<rparr>"
    by (auto simp: PunchedCard_def split: sum.splits)
  from find_holes_shape [OF h] have len: "length hs = 80" and rows: "\<forall>h \<in> set hs. length h = 12"
    by simp_all
  from a have "1 \<le> col" "col \<le> 80" by simp_all
  with len have i: "col - 1 < length hs" by linarith
  with rows have l12: "length (hs ! (col - 1)) = 12" by simp
  have v: "card_values hs ! (col - 1) = column_value (hs ! (col - 1))"
    using i by (simp add: card_values_def)
  show "length (values c) = 80" by (simp add: c card_values_def len)
  show "length (holes c) = 80" by (simp add: c len)
  show "length (holes c ! (col - 1)) = 12" using l12 by (simp add: c)
  show "values c ! (col - 1)
      = (\<Sum>row\<leftarrow>[1..<13]. holes c ! (col - 1) ! (row - 1) * 2 ^ (12 - row))"
    unfolding c using v column_value_rows [OF l12] by simp
next
  assume "length r = 12"
  then show "column_value r = (\<Sum>row\<leftarrow>[1..<13]. r ! (row - 1) * 2 ^ (12 - row))"
    by (rule column_value_rows)
qed

theorem column_value_bits_witness:
  "(\<exists>c. PunchedCard (\<lambda>a b. Inr middle) white True False = Inr c
        \<and> holes c = replicate 80 (replicate 12 0)
        \<and> length (values c) = 80 \<and> values c ! (1 - 1) = 0)
   \<and> length [1, 0, 1, 1, 0, 0, 0, 0, 0, 0, 0, 1 :: int] = 12
   \<and> column_value [1, 0, 1, 1, 0, 0, 0, 0, 0, 0, 0, 1] = 0b101100000001"
proof -
  define c where "c = \<lparr>final_im = white, holes = replicate 80 (replicate 12 (0::int)),
      values = card_values (replicate 80 (replicate 12 0))\<rparr>"
  have p: "PunchedCard (\<lambda>a b. Inr middle) white True False = Inr c"
    unfolding c_def by (rule white_card)
  have "PunchedCard (\<lambda>a b. Inr middle) white True False = Inr c \<and> (1::nat) \<le> 1 \<and> (1::nat) \<le> 80"
    using p by simp
  from column_value_bits [THEN conjunct1, THEN mp, OF this]
  have len: "length (values c) = 80"
    and v: "values c ! (1 - 1)
      = (\<Sum>row\<leftarrow>[1..<13]. holes c ! (1 - 1) ! (row - 1) * 2 ^ (12 - row))"
    by blast+
  have hc: "holes c = replicate 80 (replicate 12 0)" by (simp add: c_def)
  have "values c ! (1 - 1) = 0"
    unfolding v hc by (simp add: upt_conv_Cons del: upt_Suc)
  with p hc len have A: "\<exists>c. PunchedCard (\<lambda>a b. Inr middle) white True False = Inr c
        \<and> holes c = replicate 80 (replicate 12 0)
        \<and> length (values c) = 80 \<and> values c ! (1 - 1) = 0"
    by blast
  have l: "length [1, 0, 1, 1, 0, 0, 0, 0, 0, 0, 0, 1 :: int] = 12" by simp
  from column_value_bits [THEN conjunct2, THEN mp, OF l]
  have B: "column_value [1, 0, 1, 1, 0, 0, 0, 0, 0, 0, 0, 1] = 0b101100000001"
    by (simp add: upt_conv_Cons del: upt_Suc)
  from A l B show ?thesis by (intro conjI)
qed

end
